theory Spec2Isabelle
  imports
    Main
    "HOL-Library.Word"
    "HOL-Library.Char_ord"
    "HOL-Library.List_Lexorder"
    "HOL-Library.Multiset"
begin

section \<open>Bytes, strings and index entries\<close>

text \<open>
  A \<open>std::string\<close> is a byte sequence: \<^typ>\<open>string\<close>, a list of \<^typ>\<open>char\<close>.
  \<open>operator<\<close> on \<open>std::string\<close> compares bytes as unsigned values,
  lexicographically, a proper prefix being smaller: the order of \<open>Char_ord\<close> lifted
  by \<open>List_Lexorder\<close>.

  Conventions of the whole development.
  \<^item> \<open>size_t\<close> values (\<open>keyLength\<close>, \<open>low\<close>, \<open>high\<close>, \<open>mid\<close>, \<open>numRecords\<close>) and
    stream positions are natural numbers (positions that can be \<open>-1\<close> are integers).
    \<open>createIndex\<close>, \<open>listRecords\<close> and \<open>searchForKey\<close> describe the calls in
    which the arithmetic of the program on them does not wrap and the buffers of
    \<open>keyLength\<close> bytes are allocated. A key length of \<open>2^63\<close> or more, which a
    negative command-line argument produces, is beyond every allocation; \<open>main\<close>
    says which runs end abnormally because of it.
  \<^item> \<open>std::streamoff\<close>, the type of the offset an entry stores in 8 bytes, is a
    64-bit word; its bytes are written in little-endian order. A file of the platform
    has fewer than \<open>2^63\<close> bytes; where a theorem needs the offsets of a data file to
    fit, it says so.
  \<^item> The data file, the index file and the temporary file are three different files,
    and a file the program has just written can be opened for reading.
  \<^item> Streams follow C++11 (the Makefile's \<open>-std=c++11\<close>): \<open>seekg\<close> clears
    \<open>eofbit\<close> first, \<open>tellg\<close> on a stream that is not good sets \<open>failbit\<close>
    and returns \<open>-1\<close>. Text mode and binary mode read the same bytes.
\<close>

type_synonym streamoff = "64 word"

record IndexEntry =
  key :: string
  offset :: streamoff

definition compareIndexEntries :: "IndexEntry \<Rightarrow> IndexEntry \<Rightarrow> bool" where
  "compareIndexEntries a b = (key a < key b)"

section \<open>Input streams\<close>

record ifstream =
  content :: string
  gpos :: nat
  eofbit :: bool
  failbit :: bool

definition ifstream_open :: "string \<Rightarrow> ifstream" where
  "ifstream_open d = \<lparr>content = d, gpos = 0, eofbit = False, failbit = False\<rparr>"

definition good :: "ifstream \<Rightarrow> bool" where
  "good s = (\<not> eofbit s \<and> \<not> failbit s)"

definition newline :: char where
  "newline = CHR 0x0A"

text \<open>
  \<open>std::getline(s, line)\<close>: on a stream that is not good, \<open>failbit\<close> is set and
  nothing is read. Otherwise bytes are taken up to the next newline, which is consumed
  and not stored; when the end of the file comes first, \<open>eofbit\<close> is set, and
  \<open>failbit\<close> too when no byte at all was taken.
\<close>

definition getline :: "ifstream \<Rightarrow> ifstream \<times> string" where
  "getline s =
     (if \<not> good s then (s\<lparr>failbit := True\<rparr>, [])
      else
        let rest = drop (gpos s) (content s);
            line = takeWhile (\<lambda>c. c \<noteq> newline) rest
        in if length line < length rest
           then (s\<lparr>gpos := gpos s + length line + 1\<rparr>, line)
           else (s\<lparr>gpos := gpos s + length line, eofbit := True,
                   failbit := (line = [])\<rparr>, line))"

definition tellg :: "ifstream \<Rightarrow> ifstream \<times> int" where
  "tellg s =
     (if \<not> good s then (s\<lparr>failbit := True\<rparr>, - 1)
      else (s, int (gpos s)))"

definition seekg :: "int \<Rightarrow> ifstream \<Rightarrow> ifstream" where
  "seekg p s =
     (let s0 = s\<lparr>eofbit := False\<rparr>
      in if failbit s0 then s0
         else if p < 0 then s0\<lparr>failbit := True\<rparr>
         else s0\<lparr>gpos := nat p\<rparr>)"

definition seekg_end :: "ifstream \<Rightarrow> ifstream" where
  "seekg_end s =
     (let s0 = s\<lparr>eofbit := False\<rparr>
      in if failbit s0 then s0
         else s0\<lparr>gpos := length (content s0)\<rparr>)"

text \<open>
  \<open>s.read(buffer, n)\<close>: the bytes read are returned (\<open>gcount\<close> is their number);
  fewer than \<open>n\<close> set \<open>eofbit\<close> and \<open>failbit\<close>.
\<close>

definition ifstream_read :: "nat \<Rightarrow> ifstream \<Rightarrow> ifstream \<times> string" where
  "ifstream_read n s =
     (if \<not> good s then (s\<lparr>failbit := True\<rparr>, [])
      else
        let bs = take n (drop (gpos s) (content s))
        in if length bs < n
           then (s\<lparr>gpos := gpos s + length bs, eofbit := True, failbit := True\<rparr>, bs)
           else (s\<lparr>gpos := gpos s + n\<rparr>, bs))"

definition stream_measure :: "ifstream \<Rightarrow> nat" where
  "stream_measure s = (length (content s) - gpos s) + (if good s then 1 else 0)"

section \<open>The 8-byte offset field\<close>

fun le_bytes :: "nat \<Rightarrow> nat \<Rightarrow> string" where
  "le_bytes 0 n = []"
| "le_bytes (Suc k) n = char_of (n mod 256) # le_bytes k (n div 256)"

fun le_value :: "string \<Rightarrow> nat" where
  "le_value [] = 0"
| "le_value (c # cs) = of_char c + 256 * le_value cs"

text \<open>
  \<open>write(reinterpret_cast<const char*>(&offset), sizeof(offset))\<close> and the matching
  \<open>read\<close>.
\<close>

definition offset_bytes :: "streamoff \<Rightarrow> string" where
  "offset_bytes off = le_bytes 8 (unat off)"

definition offset_of_bytes :: "string \<Rightarrow> streamoff" where
  "offset_of_bytes bs = word_of_nat (le_value bs)"

text \<open>
  One entry as the build writes it: \<open>write(entry.key.c_str(), keyLength)\<close>, then the
  offset. Every key the program holds has exactly \<open>keyLength\<close> bytes.
\<close>

definition write_entry :: "nat \<Rightarrow> IndexEntry \<Rightarrow> string" where
  "write_entry keyLength e = take keyLength (key e) @ offset_bytes (offset e)"

fun write_entries :: "nat \<Rightarrow> IndexEntry list \<Rightarrow> string" where
  "write_entries keyLength [] = []"
| "write_entries keyLength (e # es) = write_entry keyLength e @ write_entries keyLength es"

section \<open>Reading the data file\<close>

text \<open>
  The records of a data file are the lines successive \<open>getline\<close> calls return, each
  with the position of the stream before the call.
\<close>

function read_records :: "ifstream \<Rightarrow> (nat \<times> string) list" where
  "read_records s =
     (case getline s of (s1, line) \<Rightarrow>
        if failbit s1 then [] else (gpos s, line) # read_records s1)"
  by pat_completeness auto
termination
  by (relation "measure stream_measure")
     (auto simp: getline_def stream_measure_def good_def Let_def split: if_splits)

definition records :: "string \<Rightarrow> (nat \<times> string) list" where
  "records d = read_records (ifstream_open d)"

text \<open>The loop of \<open>createIndex\<close> that writes the temporary file (lines 92 to 102).\<close>

function write_temp_loop :: "nat \<Rightarrow> ifstream \<Rightarrow> streamoff \<Rightarrow> string" where
  "write_temp_loop keyLength dataFile off =
     (case getline dataFile of (dataFile1, line) \<Rightarrow>
        if failbit dataFile1 then []
        else
          (if keyLength \<le> length line
           then take keyLength line @ offset_bytes off else [])
          @ (case tellg dataFile1 of (dataFile2, p) \<Rightarrow>
               write_temp_loop keyLength dataFile2 (word_of_int p)))"
  by pat_completeness auto
termination
  by (relation "measure (\<lambda>(k, s, off). stream_measure s)")
     (auto simp: getline_def tellg_def stream_measure_def good_def Let_def split: if_splits)

text \<open>
  The loop of \<open>createIndexInMemorySort\<close> as \<open>main.cpp\<close> has it (lines 158 to 167):
  the offset advances by \<open>line.length() + 1\<close>.
\<close>

function inmemory_loop_add :: "nat \<Rightarrow> ifstream \<Rightarrow> streamoff \<Rightarrow> IndexEntry list" where
  "inmemory_loop_add keyLength dataFile off =
     (case getline dataFile of (dataFile1, line) \<Rightarrow>
        if failbit dataFile1 then []
        else
          (if keyLength \<le> length line
           then [\<lparr>key = take keyLength line, offset = off\<rparr>] else [])
          @ inmemory_loop_add keyLength dataFile1 (off + word_of_nat (length line + 1)))"
  by pat_completeness auto
termination
  by (relation "measure (\<lambda>(k, s, off). stream_measure s)")
     (auto simp: getline_def stream_measure_def good_def Let_def split: if_splits)

text \<open>
  The same loop in the later revision of the file (lines 122 to 132 there): the offset
  is read back with \<open>tellg\<close>.
\<close>

function inmemory_loop_tellg :: "nat \<Rightarrow> ifstream \<Rightarrow> streamoff \<Rightarrow> IndexEntry list" where
  "inmemory_loop_tellg keyLength dataFile off =
     (case getline dataFile of (dataFile1, line) \<Rightarrow>
        if failbit dataFile1 then []
        else
          (if keyLength \<le> length line
           then [\<lparr>key = take keyLength line, offset = off\<rparr>] else [])
          @ (case tellg dataFile1 of (dataFile2, p) \<Rightarrow>
               inmemory_loop_tellg keyLength dataFile2 (word_of_int p)))"
  by pat_completeness auto
termination
  by (relation "measure (\<lambda>(k, s, off). stream_measure s)")
     (auto simp: getline_def tellg_def stream_measure_def good_def Let_def split: if_splits)

section \<open>Loading the temporary file\<close>

text \<open>
  Lines 113 to 122 of \<open>createIndex\<close>. \<open>entry.key.resize(keyLength)\<close> fills the key
  with zero bytes, which the read overwrites from the front; the loop stops when the
  read of the offset took no byte. An offset read in part, whose other bytes C++ leaves
  undetermined, occurs on no file the first loop wrote (lemma \<open>load_temp_file\<close>);
  the missing bytes are read as zero here.
\<close>

function load_loop :: "nat \<Rightarrow> ifstream \<Rightarrow> IndexEntry list" where
  "load_loop keyLength f =
     (if \<not> good f then []
      else
        case ifstream_read keyLength f of (f1, kb) \<Rightarrow>
        case ifstream_read 8 f1 of (f2, ob) \<Rightarrow>
          if length ob = 0 then []
          else \<lparr>key = kb @ replicate (keyLength - length kb) (CHR 0x00),
                offset = offset_of_bytes ob\<rparr> # load_loop keyLength f2)"
  by pat_completeness auto
termination
  by (relation "measure (\<lambda>(k, s). stream_measure s)")
     (auto simp: ifstream_read_def stream_measure_def good_def Let_def split: if_splits)

section \<open>Sorting\<close>

text \<open>
  \<open>std::sort(first, last, comp)\<close> is library code. The standard promises a permutation
  of the input in which no element is \<open>comp\<close>-smaller than an earlier one, and leaves
  the order of equivalent elements open. The build functions take the sort as a
  parameter, and the theorems assume of it only this contract, for the comparison the
  program passes.
\<close>

type_synonym sorter = "(IndexEntry \<Rightarrow> IndexEntry \<Rightarrow> bool) \<Rightarrow> IndexEntry list \<Rightarrow> IndexEntry list"

definition sort_contract :: "sorter \<Rightarrow> bool" where
  "sort_contract srt =
     (\<forall>es. mset (srt compareIndexEntries es) = mset es \<and>
           sorted_wrt (\<lambda>a b. \<not> compareIndexEntries b a) (srt compareIndexEntries es))"

text \<open>
  One sort that meets the contract, for evaluating the program on concrete files:
  insertion sort, which keeps equivalent elements in their order.
\<close>

fun insert_by :: "('a \<Rightarrow> 'a \<Rightarrow> bool) \<Rightarrow> 'a \<Rightarrow> 'a list \<Rightarrow> 'a list" where
  "insert_by cmp x [] = [x]"
| "insert_by cmp x (y # ys) = (if cmp y x then y # insert_by cmp x ys else x # y # ys)"

fun insertion_sort :: "('a \<Rightarrow> 'a \<Rightarrow> bool) \<Rightarrow> 'a list \<Rightarrow> 'a list" where
  "insertion_sort cmp [] = []"
| "insertion_sort cmp (x # xs) = insert_by cmp x (insertion_sort cmp xs)"

section \<open>Building the index\<close>

text \<open>
  The files one run of the program sees: the contents of the files it can open for
  reading, and whether the files it writes can be opened for writing.
\<close>

record filesystem =
  data_file :: "string option"
  index_file :: "string option"
  temp_file :: "string option"
  index_writable :: bool
  temp_writable :: bool

text \<open>What \<open>createIndex\<close> leaves in the index file for a data file with content \<open>d\<close>.\<close>

definition createIndex_file :: "sorter \<Rightarrow> nat \<Rightarrow> string \<Rightarrow> string" where
  "createIndex_file srt keyLength d =
     (let tmp = write_temp_loop keyLength (ifstream_open d) 0;
          indexEntries = load_loop keyLength (ifstream_open tmp);
          es = srt compareIndexEntries indexEntries
      in write_entries keyLength es)"

text \<open>
  \<open>createIndex\<close> of \<open>main.cpp\<close> (lines 75 to 138): the result is the file system after
  the call and the lines written to \<open>std::cerr\<close>. The open of the final index file is
  not checked; the temporary file is removed at the end.
\<close>

definition createIndex :: "sorter \<Rightarrow> filesystem \<Rightarrow> nat \<Rightarrow> filesystem \<times> string list" where
  "createIndex srt fs keyLength =
     (case data_file fs of
        None \<Rightarrow> (fs, [''Error opening data file for reading.''])
      | Some d \<Rightarrow>
          if \<not> temp_writable fs
          then (fs, [''Error opening temporary index file for writing.''])
          else
            let fs1 = (if index_writable fs
                       then fs\<lparr>index_file := Some (createIndex_file srt keyLength d)\<rparr>
                       else fs)
            in (fs1\<lparr>temp_file := None\<rparr>, []))"



definition createIndexInMemorySort_tellg_file :: "sorter \<Rightarrow> nat \<Rightarrow> string \<Rightarrow> string" where
  "createIndexInMemorySort_tellg_file srt keyLength d =
     (let indexEntries = inmemory_loop_tellg keyLength (ifstream_open d) 0;
          es = srt compareIndexEntries indexEntries
      in write_entries keyLength es)"


section \<open>Listing\<close>

record console =
  cout :: "string list"
  cerr :: "string list"

text \<open>The loop of \<open>listRecords\<close> (lines 213 to 237); one printed line per element.\<close>

function list_loop :: "nat \<Rightarrow> ifstream \<Rightarrow> ifstream \<Rightarrow> string list" where
  "list_loop keyLength indexFile dataFile =
     (if \<not> good indexFile then []
      else
        case ifstream_read keyLength indexFile of (indexFile1, buffer) \<Rightarrow>
          if length buffer < keyLength then []
          else
            case ifstream_read 8 indexFile1 of (indexFile2, ob) \<Rightarrow>
              if \<not> good indexFile2 then []
              else
                case getline (seekg (sint (offset_of_bytes ob)) dataFile) of
                  (dataFile1, rec) \<Rightarrow> rec # list_loop keyLength indexFile2 dataFile1)"
  by pat_completeness auto
termination
  by (relation "measure (\<lambda>(k, s, d). stream_measure s)")
     (auto simp: ifstream_read_def stream_measure_def good_def Let_def split: if_splits)

definition listRecords :: "filesystem \<Rightarrow> nat \<Rightarrow> console" where
  "listRecords fs keyLength =
     (case index_file fs of
        None \<Rightarrow> \<lparr>cout = [], cerr = [''Error opening index file for reading.'']\<rparr>
      | Some idx \<Rightarrow>
          (case data_file fs of
             None \<Rightarrow> \<lparr>cout = [], cerr = [''Error opening data file for reading.'']\<rparr>
           | Some d \<Rightarrow>
               \<lparr>cout = list_loop keyLength (ifstream_open idx) (ifstream_open d),
                cerr = []\<rparr>))"

section \<open>Searching\<close>

record search_vars =
  low :: nat
  high :: nat
  found :: bool
  recordOffset :: streamoff

text \<open>
  One pass through the body of the search loop (lines 291 to 341). Since
  \<open>mid < numRecords\<close>, the probe reads \<open>keyLength\<close> bytes inside the file
  (lemma \<open>search_body_probe\<close>), so \<open>currentKey\<close> is what was read.
\<close>

definition search_body :: "nat \<Rightarrow> string \<Rightarrow> ifstream \<Rightarrow> search_vars \<Rightarrow> ifstream \<times> search_vars" where
  "search_body keyLength k indexFile v =
     (let mid = low v + (high v - low v) div 2;
          indexFile1 = seekg (int (mid * (keyLength + 8))) indexFile
      in case ifstream_read keyLength indexFile1 of (indexFile2, currentKey) \<Rightarrow>
           if currentKey < k then (indexFile2, v\<lparr>low := mid + 1\<rparr>)
           else if currentKey > k then (indexFile2, v\<lparr>high := mid\<rparr>)
           else
             case ifstream_read 8 indexFile2 of (indexFile3, ob) \<Rightarrow>
               (indexFile3, v\<lparr>found := True, recordOffset := offset_of_bytes ob\<rparr>))"

text \<open>The loop: it runs while \<open>low < high\<close> and leaves at once when a key matched.\<close>

function search_loop :: "nat \<Rightarrow> string \<Rightarrow> ifstream \<Rightarrow> search_vars \<Rightarrow> ifstream \<times> search_vars" where
  "search_loop keyLength k indexFile v =
     (if low v < high v \<and> \<not> found v
      then case search_body keyLength k indexFile v of
             (indexFile1, v1) \<Rightarrow> search_loop keyLength k indexFile1 v1
      else (indexFile, v))"
  by pat_completeness auto
termination
  by (relation "measure (\<lambda>(n, k, s, v). (high v - low v) + (if found v then 0 else 1))")
     (auto simp: search_body_def Let_def split: if_splits prod.splits)

text \<open>
  The values of the loop variables each time the loop condition is evaluated, and last
  their values when the loop is left.
\<close>

function search_states :: "nat \<Rightarrow> string \<Rightarrow> ifstream \<Rightarrow> search_vars \<Rightarrow> search_vars list" where
  "search_states keyLength k indexFile v =
     v # (if low v < high v \<and> \<not> found v
          then case search_body keyLength k indexFile v of
                 (indexFile1, v1) \<Rightarrow> search_states keyLength k indexFile1 v1
          else [])"
  by pat_completeness auto
termination
  by (relation "measure (\<lambda>(n, k, s, v). (high v - low v) + (if found v then 0 else 1))")
     (auto simp: search_body_def Let_def split: if_splits prod.splits)

text \<open>The stream and the variables with which \<open>searchForKey\<close> enters the loop (lines 266 to 288).\<close>

definition search_start :: "nat \<Rightarrow> string \<Rightarrow> ifstream \<times> search_vars" where
  "search_start keyLength idx =
     (case tellg (seekg_end (ifstream_open idx)) of (indexFile, fileSize) \<Rightarrow>
        (seekg 0 indexFile,
         \<lparr>low = 0, high = nat fileSize div (keyLength + 8), found = False, recordOffset = 0\<rparr>))"

definition search_final :: "nat \<Rightarrow> string \<Rightarrow> string \<Rightarrow> search_vars" where
  "search_final keyLength k idx =
     (case search_start keyLength idx of (indexFile, v) \<Rightarrow>
        snd (search_loop keyLength k indexFile v))"

definition search_trace :: "nat \<Rightarrow> string \<Rightarrow> string \<Rightarrow> search_vars list" where
  "search_trace keyLength k idx =
     (case search_start keyLength idx of (indexFile, v) \<Rightarrow>
        search_states keyLength k indexFile v)"

text \<open>\<open>searchForKey\<close> (lines 250 to 358).\<close>

definition searchForKey :: "filesystem \<Rightarrow> string \<Rightarrow> nat \<Rightarrow> console" where
  "searchForKey fs k keyLength =
     (case index_file fs of
        None \<Rightarrow> \<lparr>cout = [], cerr = [''Error opening index file for reading.'']\<rparr>
      | Some idx \<Rightarrow>
          (case data_file fs of
             None \<Rightarrow> \<lparr>cout = [], cerr = [''Error opening data file for reading.'']\<rparr>
           | Some d \<Rightarrow>
               let v = search_final keyLength k idx
               in if found v
                  then \<lparr>cout = [snd (getline (seekg (sint (recordOffset v)) (ifstream_open d)))],
                        cerr = []\<rparr>
                  else \<lparr>cout = [''Record not found''], cerr = []\<rparr>))"

section \<open>The command line\<close>

text \<open>
  \<open>std::atoi\<close> as the C library has it, \<open>(int) strtol(s, NULL, 10)\<close>: \<open>strtol\<close> skips
  white space, takes an optional sign and the decimal digits up to the first other
  byte, and clamps the value to the range of \<open>long\<close>; the conversion to \<open>int\<close> keeps
  the low 32 bits. The cast to \<open>size_t\<close> reduces the \<open>int\<close> modulo \<open>2^64\<close>, so a
  negative argument becomes a key length of \<open>2^64 - 2^31\<close> or more.
\<close>

definition isspace :: "char \<Rightarrow> bool" where
  "isspace c = (c \<in> {CHR '' '', CHR 0x09, CHR 0x0A, CHR 0x0B, CHR 0x0C, CHR 0x0D})"

definition isdigit :: "char \<Rightarrow> bool" where
  "isdigit c = (CHR ''0'' \<le> c \<and> c \<le> CHR ''9'')"

fun digits_value :: "nat \<Rightarrow> string \<Rightarrow> nat" where
  "digits_value acc [] = acc"
| "digits_value acc (c # cs) =
     (if isdigit c then digits_value (10 * acc + (of_char c - 48)) cs else acc)"

definition strtol :: "string \<Rightarrow> int" where
  "strtol s =
     (let v = (case dropWhile isspace s of
                 [] \<Rightarrow> 0
               | c # cs \<Rightarrow>
                   if c = CHR ''-'' then - int (digits_value 0 cs)
                   else if c = CHR ''+'' then int (digits_value 0 cs)
                   else int (digits_value 0 (c # cs)))
      in max (- (2 ^ 63)) (min (2 ^ 63 - 1) v))"

definition int_of_long :: "int \<Rightarrow> int" where
  "int_of_long x = (x + 2 ^ 31) mod 2 ^ 32 - 2 ^ 31"

definition atoi :: "string \<Rightarrow> int" where
  "atoi s = int_of_long (strtol s)"

definition size_t_of_int :: "int \<Rightarrow> nat" where
  "size_t_of_int i = nat (i mod 2 ^ 64)"

text \<open>
  How a run ends: it exits with a status, or it is killed, by \<open>SIGABRT\<close> after an
  exception nobody catches (\<open>Aborted\<close>) or by the trap of an integer division by zero
  (\<open>Trapped\<close>).
\<close>

datatype ending = Exited int | Aborted | Trapped

text \<open>
  A string or buffer of \<open>n\<close> bytes. From \<open>2^63\<close> bytes on nothing is allocated:
  \<open>std::string::resize\<close> throws \<open>std::length_error\<close> and \<open>new char[n]\<close> throws
  \<open>std::bad_alloc\<close>. Below, the allocation is taken to succeed.
\<close>

definition allocatable :: "nat \<Rightarrow> bool" where
  "allocatable n = (n < 2 ^ 63)"

text \<open>
  \<open>createIndex\<close> does not return when it reaches \<open>entry.key.resize(keyLength)\<close> (line
  115) with a key length that cannot be allocated: both files were opened, the first
  loop wrote and closed the temporary file, and the loop that loads it runs its body at
  least once.
\<close>

definition createIndex_aborts :: "filesystem \<Rightarrow> nat \<Rightarrow> bool" where
  "createIndex_aborts fs keyLength =
     (data_file fs \<noteq> None \<and> temp_writable fs \<and> \<not> allocatable keyLength)"

text \<open>
  \<open>listRecords\<close> does not return when it reaches \<open>new char[keyLength]\<close> (line 214),
  which is the first statement of its loop, with such a key length.
\<close>

definition listRecords_aborts :: "filesystem \<Rightarrow> nat \<Rightarrow> bool" where
  "listRecords_aborts fs keyLength =
     (index_file fs \<noteq> None \<and> data_file fs \<noteq> None \<and> \<not> allocatable keyLength)"

text \<open>
  \<open>searchForKey\<close>, once both files are open, divides the file size by
  \<open>keyLength + sizeof(std::streamoff)\<close> in \<open>size_t\<close> (line 282): the divisor wraps to
  zero for the key length \<open>2^64 - 8\<close>. When the quotient is not zero the loop runs and
  reaches \<open>new char[keyLength]\<close> (line 312). \<open>None\<close> says that the call returns.
\<close>

definition searchForKey_killed :: "filesystem \<Rightarrow> nat \<Rightarrow> ending option" where
  "searchForKey_killed fs keyLength =
     (case index_file fs of
        None \<Rightarrow> None
      | Some idx \<Rightarrow>
          (case data_file fs of
             None \<Rightarrow> None
           | Some d \<Rightarrow>
               let stride = (keyLength + 8) mod 2 ^ 64
               in if stride = 0 then Some Trapped
                  else if 0 < length idx div stride \<and> \<not> allocatable keyLength
                  then Some Aborted
                  else None))"

text \<open>
  One run of the program: how it ends, what its statements printed, and the files
  afterwards. \<open>argv\<close> holds \<open>argc\<close> strings. \<open>checkOrCreateIndexFile\<close> opens the index
  file for reading and closes it again, which changes nothing. The file names in
  \<open>argv\<close> name the data file and the index file of the file system. A run that is
  killed has printed nothing of its own; killed in \<open>createIndex\<close>, it leaves the
  temporary file behind.
\<close>

record run =
  exit_status :: ending
  printed :: console
  files_after :: filesystem

definition argv0 :: "string list \<Rightarrow> string" where
  "argv0 argv = (case argv of [] \<Rightarrow> [] | a # _ \<Rightarrow> a)"

definition main :: "sorter \<Rightarrow> filesystem \<Rightarrow> string list \<Rightarrow> run" where
  "main srt fs argv =
     (if length argv < 5
      then \<lparr>exit_status = Exited 1,
            printed = \<lparr>cout = [],
              cerr = [''Usage: '' @ argv0 argv @ '' -c|-l|-s datafile indexfile keylength [key]'']\<rparr>,
            files_after = fs\<rparr>
      else
        let mode = argv ! 1;
            keyLength = size_t_of_int (atoi (argv ! 4))
        in if mode = ''-c''
           then (if createIndex_aborts fs keyLength
                 then \<lparr>exit_status = Aborted, printed = \<lparr>cout = [], cerr = []\<rparr>,
                       files_after =
                         (case data_file fs of
                            None \<Rightarrow> fs
                          | Some d \<Rightarrow>
                              fs\<lparr>temp_file :=
                                   Some (write_temp_loop keyLength (ifstream_open d) 0)\<rparr>)\<rparr>
                 else (case createIndex srt fs keyLength of
                         (fs1, errs) \<Rightarrow>
                           \<lparr>exit_status = Exited 0, printed = \<lparr>cout = [], cerr = errs\<rparr>,
                            files_after = fs1\<rparr>))
           else if mode = ''-l''
           then (if listRecords_aborts fs keyLength
                 then \<lparr>exit_status = Aborted, printed = \<lparr>cout = [], cerr = []\<rparr>,
                       files_after = fs\<rparr>
                 else \<lparr>exit_status = Exited 0, printed = listRecords fs keyLength,
                       files_after = fs\<rparr>)
           else if mode = ''-s''
           then (if length argv \<noteq> 6
                 then \<lparr>exit_status = Exited 1,
                       printed = \<lparr>cout = [],
                         cerr = [''Usage: '' @ argv0 argv @ '' -s datafile indexfile keylength key'']\<rparr>,
                       files_after = fs\<rparr>
                 else (case searchForKey_killed fs keyLength of
                         Some e \<Rightarrow>
                           \<lparr>exit_status = e, printed = \<lparr>cout = [], cerr = []\<rparr>,
                            files_after = fs\<rparr>
                       | None \<Rightarrow>
                           \<lparr>exit_status = Exited 0,
                            printed = searchForKey fs (argv ! 5) keyLength,
                            files_after = fs\<rparr>))
           else \<lparr>exit_status = Exited 1,
                 printed = \<lparr>cout = [],
                   cerr = [''Invalid mode. Use -c to create index, -l to list records, or -s to search for a key.'']\<rparr>,
                 files_after = fs\<rparr>)"

section \<open>Notions used in the proofs\<close>

text \<open>
  None of these is code of the program: they name what the loops compute, so that the
  lemmas below can say it.
\<close>

text \<open>The entries of the records that are long enough, in file order.\<close>

definition entries_of :: "nat \<Rightarrow> (nat \<times> string) list \<Rightarrow> IndexEntry list" where
  "entries_of keyLength recs =
     map (\<lambda>(p, l). \<lparr>key = take keyLength l, offset = word_of_nat p\<rparr>)
       (filter (\<lambda>(p, l). keyLength \<le> length l) recs)"

text \<open>The line that starts at position \<open>p\<close>.\<close>

definition line_at :: "string \<Rightarrow> nat \<Rightarrow> string" where
  "line_at d p = takeWhile (\<lambda>c. c \<noteq> newline) (drop p d)"

text \<open>The effect of one pass of the search loop on the variables, read off the bytes.\<close>

definition probe :: "nat \<Rightarrow> string \<Rightarrow> string \<Rightarrow> search_vars \<Rightarrow> search_vars" where
  "probe keyLength k idx v =
     (let mid = low v + (high v - low v) div 2;
          cur = take keyLength (drop (mid * (keyLength + 8)) idx)
      in if cur < k then v\<lparr>low := mid + 1\<rparr>
         else if k < cur then v\<lparr>high := mid\<rparr>
         else v\<lparr>found := True,
                 recordOffset := offset_of_bytes (take 8 (drop (mid * (keyLength + 8) + keyLength) idx))\<rparr>)"

text \<open>The invariant of the search loop over the entries \<open>es\<close> of a sorted index.\<close>

definition search_inv :: "IndexEntry list \<Rightarrow> string \<Rightarrow> search_vars \<Rightarrow> bool" where
  "search_inv es k v =
     (low v \<le> high v \<and> high v \<le> length es \<and>
      (\<forall>i < length es. key (es ! i) = k \<longrightarrow> low v \<le> i \<and> i < high v) \<and>
      (found v \<longrightarrow> (\<exists>m < length es. key (es ! m) = k \<and> recordOffset v = offset (es ! m))))"

text \<open>What the listing prints for the entries \<open>es\<close>, the data stream threaded through.\<close>

fun print_lines :: "IndexEntry list \<Rightarrow> ifstream \<Rightarrow> string list" where
  "print_lines [] df = []"
| "print_lines (e # es) df =
     (case getline (seekg (sint (offset e)) df) of (df1, rec) \<Rightarrow> rec # print_lines es df1)"

text \<open>The search loop on the variables alone.\<close>

function probe_loop :: "nat \<Rightarrow> string \<Rightarrow> string \<Rightarrow> search_vars \<Rightarrow> search_vars" where
  "probe_loop keyLength k idx v =
     (if low v < high v \<and> \<not> found v
      then probe_loop keyLength k idx (probe keyLength k idx v)
      else v)"
  by pat_completeness auto
termination
  by (relation "measure (\<lambda>(n, k, idx, v). (high v - low v) + (if found v then 0 else 1))")
     (auto simp: probe_def Let_def)

declare read_records.simps [simp del] write_temp_loop.simps [simp del]
  inmemory_loop_add.simps [simp del] inmemory_loop_tellg.simps [simp del]
  load_loop.simps [simp del] list_loop.simps [simp del]
  search_loop.simps [simp del] search_states.simps [simp del]
  probe_loop.simps [simp del]


section \<open>The offset field and the index format\<close>


lemma length_le_bytes: "length (le_bytes k n) = k"
  by (induction k arbitrary: n) simp_all

lemma le_value_le_bytes: "le_value (le_bytes k n) = n mod 256 ^ k"
proof (induction k arbitrary: n)
  case 0
  show ?case by simp
next
  case (Suc k)
  have "n mod 256 + 256 * (n div 256 mod 256 ^ k) = n mod (256 * 256 ^ k)"
    by (simp add: mod_mult2_eq)
  with Suc show ?case by (simp add: of_char_of)
qed

lemma length_offset_bytes: "length (offset_bytes w) = 8"
  by (simp add: offset_bytes_def length_le_bytes)

lemma offset_of_bytes_offset_bytes: "offset_of_bytes (offset_bytes w) = w"
proof -
  have "unat w < 2 ^ 64"
    using unsigned_less [of w] by simp
  then have "unat w mod 256 ^ 8 = unat w"
    by simp
  then show ?thesis
    by (simp add: offset_of_bytes_def offset_bytes_def le_value_le_bytes)
qed

lemma length_write_entry:
  "length (key e) = keyLength \<Longrightarrow> length (write_entry keyLength e) = keyLength + 8"
  by (simp add: write_entry_def length_offset_bytes)

lemma write_entries_append:
  "write_entries keyLength (xs @ ys) = write_entries keyLength xs @ write_entries keyLength ys"
  by (induction xs) simp_all

lemma length_write_entries:
  "\<forall>e \<in> set es. length (key e) = keyLength \<Longrightarrow>
   length (write_entries keyLength es) = length es * (keyLength + 8)"
  by (induction es) (simp_all add: length_write_entry)

section \<open>The three reading loops\<close>


lemma entries_of_Nil: "entries_of keyLength [] = []"
  by (simp add: entries_of_def)

lemma entries_of_Cons:
  "entries_of keyLength ((p, l) # recs) =
     (if keyLength \<le> length l then [\<lparr>key = take keyLength l, offset = word_of_nat p\<rparr>] else [])
     @ entries_of keyLength recs"
  by (simp add: entries_of_def)

lemma entries_of_key_length:
  "e \<in> set (entries_of keyLength recs) \<Longrightarrow> length (key e) = keyLength"
  by (auto simp: entries_of_def)

lemma getline_not_good: "\<not> good s \<Longrightarrow> failbit (fst (getline s))"
  by (simp add: getline_def)

lemma read_records_not_good: "\<not> good s \<Longrightarrow> read_records s = []"
  by (subst read_records.simps) (simp add: getline_def)

lemma inmemory_loop_tellg_not_good: "\<not> good s \<Longrightarrow> inmemory_loop_tellg keyLength s off = []"
  by (subst inmemory_loop_tellg.simps) (simp add: getline_def)


lemma write_temp_loop_not_good: "\<not> good s \<Longrightarrow> write_temp_loop keyLength s off = []"
  by (subst write_temp_loop.simps) (simp add: getline_def)

lemma getline_ok_was_good: "getline s = (s1, line) \<Longrightarrow> \<not> failbit s1 \<Longrightarrow> good s"
  by (auto simp: getline_def split: if_splits)


lemma tellg_good: "good s \<Longrightarrow> tellg s = (s, int (gpos s))"
  by (simp add: tellg_def)

lemma tellg_not_good: "\<not> good s \<Longrightarrow> \<not> good (fst (tellg s))"
  by (simp add: tellg_def good_def)

lemma inmemory_loop_tellg_records:
  "(good s \<longrightarrow> off = word_of_nat (gpos s)) \<Longrightarrow>
   inmemory_loop_tellg keyLength s off = entries_of keyLength (read_records s)"
proof (induction s arbitrary: off rule: read_records.induct)
  case (1 s)
  obtain s1 line where g: "getline s = (s1, line)"
    by (cases "getline s")
  show ?case
  proof (cases "failbit s1")
    case True
    with g show ?thesis
      by (subst inmemory_loop_tellg.simps, subst read_records.simps)
         (simp add: entries_of_Nil)
  next
    case False
    with g have gs: "good s"
      by (rule getline_ok_was_good)
    with "1.prems" have off: "off = word_of_nat (gpos s)"
      by simp
    have tl: "(case tellg s1 of (s2, p) \<Rightarrow> inmemory_loop_tellg keyLength s2 (word_of_int p))
      = entries_of keyLength (read_records s1)"
    proof (cases "good s1")
      case True
      then show ?thesis
        using "1.IH" [OF g [symmetric] False, of "word_of_nat (gpos s1)"]
        by (simp add: tellg_good)
    next
      case ng: False
      then have "\<not> good (fst (tellg s1))"
        by (rule tellg_not_good)
      then show ?thesis
        using ng
        by (simp add: case_prod_beta inmemory_loop_tellg_not_good read_records_not_good
            entries_of_Nil)
    qed
    show ?thesis
      using g False off tl
      by (subst inmemory_loop_tellg.simps, subst read_records.simps)
         (simp add: entries_of_Cons)
  qed
qed



lemma write_entries_entries_of_Cons:
  "write_entries keyLength (entries_of keyLength ((p, l) # recs)) =
     (if keyLength \<le> length l then take keyLength l @ offset_bytes (word_of_nat p) else [])
     @ write_entries keyLength (entries_of keyLength recs)"
  by (simp add: entries_of_Cons write_entry_def)

lemma write_temp_loop_records:
  "(good s \<longrightarrow> off = word_of_nat (gpos s)) \<Longrightarrow>
   write_temp_loop keyLength s off =
     write_entries keyLength (entries_of keyLength (read_records s))"
proof (induction s arbitrary: off rule: read_records.induct)
  case (1 s)
  obtain s1 line where g: "getline s = (s1, line)"
    by (cases "getline s")
  show ?case
  proof (cases "failbit s1")
    case True
    with g show ?thesis
      by (subst write_temp_loop.simps, subst read_records.simps)
         (simp add: entries_of_Nil)
  next
    case False
    with g have gs: "good s"
      by (rule getline_ok_was_good)
    with "1.prems" have off: "off = word_of_nat (gpos s)"
      by simp
    have tl: "(case tellg s1 of (s2, p) \<Rightarrow> write_temp_loop keyLength s2 (word_of_int p))
      = write_entries keyLength (entries_of keyLength (read_records s1))"
    proof (cases "good s1")
      case True
      then show ?thesis
        using "1.IH" [OF g [symmetric] False, of "word_of_nat (gpos s1)"]
        by (simp add: tellg_good)
    next
      case ng: False
      then have "\<not> good (fst (tellg s1))"
        by (rule tellg_not_good)
      then show ?thesis
        using ng
        by (simp add: case_prod_beta write_temp_loop_not_good read_records_not_good
            entries_of_Nil)
    qed
    show ?thesis
      using g False off tl
      by (subst write_temp_loop.simps, subst read_records.simps)
         (simp add: write_entries_entries_of_Cons)
  qed
qed

lemma good_ifstream_open: "good (ifstream_open d)"
  by (simp add: good_def ifstream_open_def)

lemma ifstream_read_exact:
  "good s \<Longrightarrow> gpos s + n \<le> length (content s) \<Longrightarrow>
   ifstream_read n s = (s\<lparr>gpos := gpos s + n\<rparr>, take n (drop (gpos s) (content s)))"
  by (simp add: ifstream_read_def)

lemma ifstream_read_at_end:
  "good s \<Longrightarrow> length (content s) \<le> gpos s \<Longrightarrow>
   ifstream_read n s = (if 0 < n then s\<lparr>gpos := gpos s, eofbit := True, failbit := True\<rparr> else s\<lparr>gpos := gpos s\<rparr>, [])"
  by (simp add: ifstream_read_def)

lemma load_loop_at_end:
  assumes "good s" and "length (content s) \<le> gpos s"
  shows "load_loop keyLength s = []"
proof (cases "0 < keyLength")
  case True
  with assms show ?thesis
    by (subst load_loop.simps) (simp add: ifstream_read_at_end, simp add: ifstream_read_def good_def)
next
  case False
  with assms show ?thesis
    by (subst load_loop.simps) (simp add: ifstream_read_def)
qed

lemma offset_bytes_not_Nil: "offset_bytes w \<noteq> []"
  using length_offset_bytes [of w] by auto

lemma load_loop_write_entries:
  "good s \<Longrightarrow> gpos s \<le> length (content s) \<Longrightarrow>
   drop (gpos s) (content s) = write_entries keyLength es \<Longrightarrow>
   \<forall>e \<in> set es. length (key e) = keyLength \<Longrightarrow>
   load_loop keyLength s = es"
proof (induction es arbitrary: s)
  case Nil
  then have "length (content s) \<le> gpos s"
    by simp
  with Nil.prems(1) show ?case
    by (rule load_loop_at_end)
next
  case (Cons e es)
  let ?rest = "drop (gpos s) (content s)"
  have rest: "?rest = key e @ offset_bytes (offset e) @ write_entries keyLength es"
    and kl: "length (key e) = keyLength"
    using Cons.prems by (simp_all add: write_entry_def)
  have len: "gpos s + keyLength + 8 \<le> length (content s)"
  proof -
    have "length ?rest = keyLength + 8 + length (write_entries keyLength es)"
      by (simp add: rest kl length_offset_bytes)
    then show ?thesis by simp
  qed
  let ?s1 = "s\<lparr>gpos := gpos s + keyLength\<rparr>"
  let ?s2 = "s\<lparr>gpos := gpos s + keyLength + 8\<rparr>"
  have r1: "ifstream_read keyLength s = (?s1, key e)"
    using Cons.prems(1) len by (simp add: ifstream_read_exact rest kl)
  have g1: "good ?s1"
    using Cons.prems(1) by (simp add: good_def)
  have d1: "drop (gpos s + keyLength) (content s) = offset_bytes (offset e) @ write_entries keyLength es"
    using rest kl by (metis append_eq_conv_conj drop_drop add.commute)
  have r2: "ifstream_read 8 ?s1 = (?s2, offset_bytes (offset e))"
    using g1 len by (simp add: ifstream_read_exact d1 length_offset_bytes)
  have g2: "good ?s2"
    using Cons.prems(1) by (simp add: good_def)
  have d2: "drop (gpos ?s2) (content ?s2) = write_entries keyLength es"
  proof -
    have "drop (gpos s + keyLength + 8) (content s) = drop 8 (drop (gpos s + keyLength) (content s))"
      by (simp add: add.commute)
    then show ?thesis
      by (simp add: d1 length_offset_bytes)
  qed
  have "load_loop keyLength ?s2 = es"
    using Cons.IH [OF g2 _ d2] len Cons.prems(4) by simp
  then show ?case
    using Cons.prems(1) r1 r2 kl
    by (subst load_loop.simps)
       (simp add: offset_bytes_not_Nil offset_of_bytes_offset_bytes)
qed

lemma load_loop_open_write_entries:
  "\<forall>e \<in> set es. length (key e) = keyLength \<Longrightarrow>
   load_loop keyLength (ifstream_open (write_entries keyLength es)) = es"
  by (rule load_loop_write_entries) (simp_all add: good_ifstream_open, simp_all add: ifstream_open_def)

lemma createIndex_file_eq:
  "createIndex_file srt keyLength d =
     write_entries keyLength (srt compareIndexEntries (entries_of keyLength (records d)))"
proof -
  have "write_temp_loop keyLength (ifstream_open d) 0 =
      write_entries keyLength (entries_of keyLength (records d))"
    unfolding records_def
    by (rule write_temp_loop_records) (simp add: ifstream_open_def)
  moreover have "load_loop keyLength (ifstream_open (write_entries keyLength (entries_of keyLength (records d))))
      = entries_of keyLength (records d)"
    by (rule load_loop_open_write_entries) (simp add: entries_of_key_length)
  ultimately show ?thesis
    by (simp add: createIndex_file_def)
qed


lemma createIndexInMemorySort_tellg_file_eq:
  "createIndexInMemorySort_tellg_file srt keyLength d =
     write_entries keyLength (srt compareIndexEntries (entries_of keyLength (records d)))"
proof -
  have "inmemory_loop_tellg keyLength (ifstream_open d) 0 = entries_of keyLength (records d)"
    unfolding records_def
    by (rule inmemory_loop_tellg_records) (simp add: ifstream_open_def)
  then show ?thesis
    by (simp add: createIndexInMemorySort_tellg_file_def)
qed

lemma load_temp_file:
  "load_loop keyLength (ifstream_open (write_temp_loop keyLength (ifstream_open d) 0)) =
     entries_of keyLength (records d)"
proof -
  have "write_temp_loop keyLength (ifstream_open d) 0 =
      write_entries keyLength (entries_of keyLength (records d))"
    unfolding records_def
    by (rule write_temp_loop_records) (simp add: ifstream_open_def)
  moreover have "load_loop keyLength
      (ifstream_open (write_entries keyLength (entries_of keyLength (records d))))
      = entries_of keyLength (records d)"
    by (rule load_loop_open_write_entries) (simp add: entries_of_key_length)
  ultimately show ?thesis by simp
qed

lemma inmemory_loop_tellg_open:
  "inmemory_loop_tellg keyLength (ifstream_open d) 0 = entries_of keyLength (records d)"
  unfolding records_def
  by (rule inmemory_loop_tellg_records) (simp add: ifstream_open_def)

section \<open>The search loop\<close>


lemma seekg_good: "\<not> failbit s \<Longrightarrow> seekg (int p) s = s\<lparr>eofbit := False, gpos := p\<rparr>"
  by (simp add: seekg_def)

lemma mid_bounds:
  fixes lo hi :: nat
  assumes "lo < hi"
  shows "lo \<le> lo + (hi - lo) div 2" and "lo + (hi - lo) div 2 < hi"
  using assms by simp_all

lemma entry_in_file:
  fixes m n st len :: nat
  assumes "m < n" and "n * st \<le> len"
  shows "m * st + st \<le> len"
proof -
  have "Suc m \<le> n" using assms(1) by simp
  then have "Suc m * st \<le> n * st" by (rule mult_le_mono1)
  with assms(2) show ?thesis by simp
qed

lemma search_body_probe:
  assumes g: "good s" and lh: "low v < high v"
    and len: "high v * (keyLength + 8) \<le> length (content s)"
  shows "\<exists>s'. search_body keyLength k s v = (s', probe keyLength k (content s) v)
           \<and> good s' \<and> content s' = content s"
proof -
  let ?mid = "low v + (high v - low v) div 2"
  let ?pos = "?mid * (keyLength + 8)"
  have mid: "?mid < high v" using lh by simp
  have inb: "?pos + (keyLength + 8) \<le> length (content s)"
    using mid len by (rule entry_in_file)
  let ?s1 = "s\<lparr>eofbit := False, gpos := ?pos\<rparr>"
  have nf: "\<not> failbit s" using g by (simp add: good_def)
  have sk: "seekg (int ?pos) s = ?s1"
    using nf by (rule seekg_good)
  have g1: "good ?s1" using g by (simp add: good_def)
  let ?s2 = "?s1\<lparr>gpos := ?pos + keyLength\<rparr>"
  have r1: "ifstream_read keyLength ?s1 = (?s2, take keyLength (drop ?pos (content s)))"
    using g1 inb by (simp add: ifstream_read_exact)
  have g2: "good ?s2" using g by (simp add: good_def)
  let ?s3 = "?s2\<lparr>gpos := ?pos + keyLength + 8\<rparr>"
  have r2: "ifstream_read 8 ?s2 = (?s3, take 8 (drop (?pos + keyLength) (content s)))"
    using g2 inb by (simp add: ifstream_read_exact)
  have g3: "good ?s3" using g by (simp add: good_def)
  show ?thesis
    unfolding search_body_def probe_def Let_def sk r1 r2 prod.case
    using g2 g3 by auto
qed

lemma probe_high_le: "low v < high v \<Longrightarrow> high (probe keyLength k idx v) \<le> high v"
  using mid_bounds(2) [of "low v" "high v"] by (simp add: probe_def Let_def)

lemma search_loop_rule:
  "(\<And>v. I v \<Longrightarrow> low v < high v \<Longrightarrow> \<not> found v \<Longrightarrow>
      high v * (keyLength + 8) \<le> length idx \<Longrightarrow> I (probe keyLength k idx v)) \<Longrightarrow>
   good s \<Longrightarrow> content s = idx \<Longrightarrow> high v * (keyLength + 8) \<le> length idx \<Longrightarrow> I v \<Longrightarrow>
    I (snd (search_loop keyLength k s v)) \<and>
    \<not> (low (snd (search_loop keyLength k s v)) < high (snd (search_loop keyLength k s v))
       \<and> \<not> found (snd (search_loop keyLength k s v)))"
proof (induction keyLength k s v rule: search_loop.induct)
  case (1 keyLength k s v)
  note step = "1.prems"(1) and g = "1.prems"(2) and c = "1.prems"(3)
    and h = "1.prems"(4) and Iv = "1.prems"(5)
  show ?case
  proof (cases "low v < high v \<and> \<not> found v")
    case False
    then show ?thesis
      using Iv by (subst (1 2 3 4) search_loop.simps) auto
  next
    case True
    then have lh: "low v < high v" and nf: "\<not> found v" by simp_all
    from search_body_probe [OF g lh, of keyLength k] c h
    obtain s' where sb: "search_body keyLength k s v = (s', probe keyLength k idx v)"
      and g': "good s'" and c': "content s' = idx"
      by auto
    have h': "high (probe keyLength k idx v) * (keyLength + 8) \<le> length idx"
    proof -
      have "high (probe keyLength k idx v) * (keyLength + 8) \<le> high v * (keyLength + 8)"
        using probe_high_le [OF lh] by (rule mult_le_mono1)
      then show ?thesis using h by (rule order_trans)
    qed
    have I': "I (probe keyLength k idx v)"
      using Iv lh nf h by (rule step)
    have eq: "search_loop keyLength k s v = search_loop keyLength k s' (probe keyLength k idx v)"
      using True sb by (subst search_loop.simps) simp
    show ?thesis
      unfolding eq
      using "1.IH" [OF True sb [symmetric] step g' c' h' I'] .
  qed
qed

lemma search_states_rule:
  "(\<And>v. I v \<Longrightarrow> low v < high v \<Longrightarrow> \<not> found v \<Longrightarrow>
      high v * (keyLength + 8) \<le> length idx \<Longrightarrow> I (probe keyLength k idx v)) \<Longrightarrow>
   good s \<Longrightarrow> content s = idx \<Longrightarrow> high v * (keyLength + 8) \<le> length idx \<Longrightarrow> I v \<Longrightarrow>
   w \<in> set (search_states keyLength k s v) \<Longrightarrow> I w"
proof (induction keyLength k s v rule: search_states.induct)
  case (1 keyLength k s v)
  note step = "1.prems"(1) and g = "1.prems"(2) and c = "1.prems"(3)
    and h = "1.prems"(4) and Iv = "1.prems"(5) and mem = "1.prems"(6)
  show ?case
  proof (cases "low v < high v \<and> \<not> found v")
    case False
    then have "search_states keyLength k s v = [v]"
      by (subst search_states.simps) auto
    with mem Iv show ?thesis by simp
  next
    case True
    then have lh: "low v < high v" and nf: "\<not> found v" by simp_all
    from search_body_probe [OF g lh, of keyLength k] c h
    obtain s' where sb: "search_body keyLength k s v = (s', probe keyLength k idx v)"
      and g': "good s'" and c': "content s' = idx"
      by auto
    have h': "high (probe keyLength k idx v) * (keyLength + 8) \<le> length idx"
    proof -
      have "high (probe keyLength k idx v) * (keyLength + 8) \<le> high v * (keyLength + 8)"
        using probe_high_le [OF lh] by (rule mult_le_mono1)
      then show ?thesis using h by (rule order_trans)
    qed
    have I': "I (probe keyLength k idx v)"
      using Iv lh nf h by (rule step)
    have eq: "search_states keyLength k s v =
        v # search_states keyLength k s' (probe keyLength k idx v)"
      using True sb by (subst search_states.simps) simp
    from mem eq have "w = v \<or> w \<in> set (search_states keyLength k s' (probe keyLength k idx v))"
      by simp
    then show ?thesis
    proof
      assume "w = v"
      with Iv show ?thesis by simp
    next
      assume "w \<in> set (search_states keyLength k s' (probe keyLength k idx v))"
      then show ?thesis
        using "1.IH" [OF True sb [symmetric] step g' c' h' I'] by simp
    qed
  qed
qed

lemma search_start_eq:
  "search_start keyLength idx =
     (\<lparr>content = idx, gpos = 0, eofbit = False, failbit = False\<rparr>,
      \<lparr>low = 0, high = length idx div (keyLength + 8), found = False, recordOffset = 0\<rparr>)"
  by (simp add: search_start_def seekg_end_def tellg_def seekg_def ifstream_open_def good_def)


lemma probe_wrong_length:
  assumes "length k \<noteq> keyLength" and "low v < high v"
    and "high v * (keyLength + 8) \<le> length idx"
  shows "found (probe keyLength k idx v) = found v"
proof -
  let ?mid = "low v + (high v - low v) div 2"
  let ?cur = "take keyLength (drop (?mid * (keyLength + 8)) idx)"
  have "?mid < high v" using assms(2) by simp
  then have "?mid * (keyLength + 8) + (keyLength + 8) \<le> length idx"
    using assms(3) by (rule entry_in_file)
  then have "length ?cur = keyLength" by simp
  with assms(1) have "?cur \<noteq> k" by auto
  then have "?cur < k \<or> k < ?cur" by auto
  then show ?thesis
    by (auto simp: probe_def Let_def)
qed

lemma search_final_wrong_length:
  assumes "length k \<noteq> keyLength"
  shows "\<not> found (search_final keyLength k idx)"
proof -
  let ?s = "\<lparr>content = idx, gpos = 0, eofbit = False, failbit = False\<rparr>"
  let ?v = "\<lparr>low = 0, high = length idx div (keyLength + 8), found = False, recordOffset = 0\<rparr>"
  have "\<not> found (snd (search_loop keyLength k ?s ?v)) \<and>
    \<not> (low (snd (search_loop keyLength k ?s ?v)) < high (snd (search_loop keyLength k ?s ?v))
       \<and> \<not> found (snd (search_loop keyLength k ?s ?v)))"
  proof (rule search_loop_rule [where I = "\<lambda>v. \<not> found v" and idx = idx])
    fix v :: search_vars
    assume "\<not> found v" "low v < high v" "high v * (keyLength + 8) \<le> length idx"
    then show "\<not> found (probe keyLength k idx v)"
      using probe_wrong_length [OF assms, of v idx] by simp
  qed (simp_all add: good_def)
  then show ?thesis
    by (simp add: search_final_def search_start_eq)
qed

lemma drop_write_entries:
  "\<forall>e \<in> set es. length (key e) = keyLength \<Longrightarrow> i \<le> length es \<Longrightarrow>
   drop (i * (keyLength + 8)) (write_entries keyLength es) = write_entries keyLength (drop i es)"
proof (induction es arbitrary: i)
  case Nil
  then show ?case by simp
next
  case (Cons e es)
  show ?case
  proof (cases i)
    case 0
    then show ?thesis by simp
  next
    case (Suc j)
    have le: "length (write_entry keyLength e) = keyLength + 8"
      using Cons.prems(1) by (simp add: length_write_entry)
    have "drop (Suc j * (keyLength + 8)) (write_entry keyLength e @ write_entries keyLength es)
        = drop (j * (keyLength + 8)) (write_entries keyLength es)"
      using le by simp
    also have "\<dots> = write_entries keyLength (drop j es)"
      using Cons.IH [of j] Cons.prems Suc by simp
    finally show ?thesis
      using Suc by simp
  qed
qed

lemma entry_at:
  assumes "\<forall>e \<in> set es. length (key e) = keyLength" and "i < length es"
  shows "take keyLength (drop (i * (keyLength + 8)) (write_entries keyLength es)) = key (es ! i)"
    and "take 8 (drop (i * (keyLength + 8) + keyLength) (write_entries keyLength es))
         = offset_bytes (offset (es ! i))"
proof -
  have kl: "length (key (es ! i)) = keyLength"
    using assms by simp
  have d: "drop (i * (keyLength + 8)) (write_entries keyLength es)
      = key (es ! i) @ offset_bytes (offset (es ! i)) @ write_entries keyLength (drop (Suc i) es)"
    using drop_write_entries [OF assms(1), of i] assms(2) kl
    by (simp add: Cons_nth_drop_Suc [symmetric] write_entry_def)
  show "take keyLength (drop (i * (keyLength + 8)) (write_entries keyLength es)) = key (es ! i)"
    by (simp add: d kl)
  have "drop (i * (keyLength + 8) + keyLength) (write_entries keyLength es)
      = drop keyLength (drop (i * (keyLength + 8)) (write_entries keyLength es))"
    by (simp add: add.commute)
  also have "\<dots> = offset_bytes (offset (es ! i)) @ write_entries keyLength (drop (Suc i) es)"
    by (simp add: d kl)
  finally show "take 8 (drop (i * (keyLength + 8) + keyLength) (write_entries keyLength es))
         = offset_bytes (offset (es ! i))"
    by (simp add: length_offset_bytes)
qed

lemma probe_entries:
  assumes "\<forall>e \<in> set es. length (key e) = keyLength"
    and "low v < high v" and "high v \<le> length es"
  shows "probe keyLength k (write_entries keyLength es) v =
    (let mid = low v + (high v - low v) div 2
     in if key (es ! mid) < k then v\<lparr>low := mid + 1\<rparr>
        else if k < key (es ! mid) then v\<lparr>high := mid\<rparr>
        else v\<lparr>found := True, recordOffset := offset (es ! mid)\<rparr>)"
proof -
  have "low v + (high v - low v) div 2 < length es"
    using assms(2,3) by simp
  then show ?thesis
    using entry_at [OF assms(1)]
    by (simp add: probe_def Let_def offset_of_bytes_offset_bytes)
qed

lemma sorted_keys_nth:
  "sorted (map key es) \<Longrightarrow> i \<le> j \<Longrightarrow> j < length es \<Longrightarrow> key (es ! i) \<le> key (es ! j)"
  using sorted_nth_mono [of "map key es" i j] by simp

lemma search_inv_probe:
  assumes keys: "\<forall>e \<in> set es. length (key e) = keyLength"
    and srt: "sorted (map key es)"
    and inv: "search_inv es k v" and lh: "low v < high v" and nf: "\<not> found v"
  shows "search_inv es k (probe keyLength k (write_entries keyLength es) v)"
proof -
  let ?mid = "low v + (high v - low v) div 2"
  have hn: "high v \<le> length es" using inv by (simp add: search_inv_def)
  have mid: "low v \<le> ?mid" "?mid < high v" using lh by simp_all
  then have midn: "?mid < length es" using hn by simp
  have range: "\<And>i. i < length es \<Longrightarrow> key (es ! i) = k \<Longrightarrow> low v \<le> i \<and> i < high v"
    using inv by (simp add: search_inv_def)
  note pe = probe_entries [OF keys lh hn, of k]
  consider (less) "key (es ! ?mid) < k" | (greater) "\<not> key (es ! ?mid) < k" "k < key (es ! ?mid)"
    | (equal) "\<not> key (es ! ?mid) < k" "\<not> k < key (es ! ?mid)"
    by blast
  then show ?thesis
  proof cases
    case less
    have "\<And>i. i < length es \<Longrightarrow> key (es ! i) = k \<Longrightarrow> ?mid + 1 \<le> i"
    proof (rule ccontr)
      fix i assume i: "i < length es" "key (es ! i) = k" "\<not> ?mid + 1 \<le> i"
      then have "i \<le> ?mid" by simp
      with srt have "key (es ! i) \<le> key (es ! ?mid)"
        using midn by (rule sorted_keys_nth)
      with i(2) less show False by simp
    qed
    then show ?thesis
      using less inv mid nf range
      by (simp add: pe Let_def search_inv_def)
  next
    case greater
    have "\<And>i. i < length es \<Longrightarrow> key (es ! i) = k \<Longrightarrow> i < ?mid"
    proof (rule ccontr)
      fix i assume i: "i < length es" "key (es ! i) = k" "\<not> i < ?mid"
      then have "?mid \<le> i" by simp
      with srt have "key (es ! ?mid) \<le> key (es ! i)"
        using i(1) by (rule sorted_keys_nth)
      with i(2) greater show False by simp
    qed
    then show ?thesis
      using greater inv mid nf range
      by (simp add: pe Let_def search_inv_def)
  next
    case equal
    then have "key (es ! ?mid) = k" by simp
    then show ?thesis
      using equal inv midn
      by (auto simp: pe Let_def search_inv_def)
  qed
qed


section \<open>Sorting meets its contract\<close>

lemma sort_contract_mset: "sort_contract srt \<Longrightarrow> mset (srt compareIndexEntries es) = mset es"
  by (simp add: sort_contract_def)

lemma sort_contract_set: "sort_contract srt \<Longrightarrow> set (srt compareIndexEntries es) = set es"
  using sort_contract_mset [of srt es] by (metis set_mset_mset)

lemma sort_contract_length: "sort_contract srt \<Longrightarrow> length (srt compareIndexEntries es) = length es"
  using sort_contract_mset [of srt es] by (metis size_mset)

lemma sort_contract_sorted:
  assumes "sort_contract srt"
  shows "sorted (map key (srt compareIndexEntries es))"
proof -
  have "sorted_wrt (\<lambda>a b. \<not> compareIndexEntries b a) (srt compareIndexEntries es)"
    using assms by (simp add: sort_contract_def)
  then have "sorted_wrt (\<lambda>a b. key a \<le> key b) (srt compareIndexEntries es)"
    by (rule sorted_wrt_mono_rel [rotated]) (simp add: compareIndexEntries_def not_less)
  then show ?thesis
    by (simp add: sorted_map)
qed

lemma mset_insert_by: "mset (insert_by cmp x ys) = add_mset x (mset ys)"
  by (induction ys) simp_all

lemma mset_insertion_sort: "mset (insertion_sort cmp xs) = mset xs"
  by (induction xs) (simp_all add: mset_insert_by)

lemma set_insert_by: "set (insert_by cmp x ys) = insert x (set ys)"
  using mset_insert_by [of cmp x ys] by (metis set_mset_mset set_mset_add_mset_insert)

lemma sorted_insert_by:
  "sorted_wrt (\<lambda>a b. key a \<le> key b) ys \<Longrightarrow>
   sorted_wrt (\<lambda>a b. key a \<le> key b) (insert_by compareIndexEntries x ys)"
  by (induction ys) (auto simp: set_insert_by compareIndexEntries_def)

lemma sorted_insertion_sort:
  "sorted_wrt (\<lambda>a b. key a \<le> key b) (insertion_sort compareIndexEntries xs)"
  by (induction xs) (simp_all add: sorted_insert_by)

lemma sort_contract_insertion_sort: "sort_contract insertion_sort"
proof -
  have "sorted_wrt (\<lambda>a b. \<not> compareIndexEntries b a) (insertion_sort compareIndexEntries es)" for es
    using sorted_insertion_sort [of es]
    by (rule sorted_wrt_mono_rel [rotated]) (simp add: compareIndexEntries_def not_less)
  then show ?thesis
    by (simp add: sort_contract_def mset_insertion_sort)
qed

section \<open>Records and their positions\<close>

lemma getline_props:
  assumes "getline s = (s1, line)" and "\<not> failbit s1"
  shows "content s1 = content s" and "gpos s \<le> gpos s1"
    and "line = line_at (content s) (gpos s)" and "gpos s < length (content s)"
proof -
  have gs: "good s"
    using assms by (rule getline_ok_was_good)
  let ?rest = "drop (gpos s) (content s)"
  let ?l = "takeWhile (\<lambda>c. c \<noteq> newline) ?rest"
  show "content s1 = content s" and "gpos s \<le> gpos s1"
    and "line = line_at (content s) (gpos s)"
    using assms gs by (auto simp: getline_def line_at_def Let_def split: if_splits)
  have "?rest \<noteq> []"
  proof
    assume "?rest = []"
    then have "getline s = (s\<lparr>gpos := gpos s, eofbit := True, failbit := True\<rparr>, [])"
      using gs by (simp add: getline_def)
    with assms show False by auto
  qed
  then show "gpos s < length (content s)" by simp
qed

lemma read_records_props:
  "(p, r) \<in> set (read_records s) \<Longrightarrow>
   gpos s \<le> p \<and> p < length (content s) \<and> r = line_at (content s) p"
proof (induction s rule: read_records.induct)
  case (1 s)
  obtain s1 line where g: "getline s = (s1, line)"
    by (cases "getline s")
  show ?case
  proof (cases "failbit s1")
    case True
    with g have "read_records s = []"
      by (subst read_records.simps) simp
    with "1.prems" show ?thesis by simp
  next
    case False
    note gp = getline_props [OF g False]
    have "read_records s = (gpos s, line) # read_records s1"
      using g False by (subst read_records.simps) simp
    with "1.prems" have "(p, r) = (gpos s, line) \<or> (p, r) \<in> set (read_records s1)"
      by simp
    then show ?thesis
    proof
      assume "(p, r) = (gpos s, line)"
      with gp show ?thesis by simp
    next
      assume "(p, r) \<in> set (read_records s1)"
      then have "gpos s1 \<le> p \<and> p < length (content s1) \<and> r = line_at (content s1) p"
        by (rule "1.IH" [OF g [symmetric] False])
      with gp show ?thesis by simp
    qed
  qed
qed

lemma records_props:
  "(p, r) \<in> set (records d) \<Longrightarrow> p < length d \<and> r = line_at d p"
  using read_records_props [of p r "ifstream_open d"]
  by (simp add: records_def ifstream_open_def)

lemma getline_seekg:
  assumes "\<not> failbit df" and "p < length (content df)"
  shows "snd (getline (seekg (int p) df)) = line_at (content df) p"
    and "\<not> failbit (fst (getline (seekg (int p) df)))"
    and "content (fst (getline (seekg (int p) df))) = content df"
  using assms by (auto simp: getline_def seekg_def good_def line_at_def Let_def)

lemma getline_seekg_open:
  "snd (getline (seekg (int p) (ifstream_open d))) = line_at d p"
  by (simp add: getline_def seekg_def good_def line_at_def Let_def ifstream_open_def)

lemma sint_word_of_nat:
  "p < 2 ^ 63 \<Longrightarrow> sint (word_of_nat p :: 64 word) = int p"
proof -
  assume "p < 2 ^ 63"
  then have "int p < 2 ^ 63" by (metis of_nat_less_iff of_nat_numeral of_nat_power)
  then show ?thesis
    by (simp add: signed_of_nat signed_take_bit_int_eq_self)
qed

section \<open>The entries of a data file\<close>

lemma entries_of_records:
  assumes "e \<in> set (entries_of keyLength (records d))" and "length d < 2 ^ 63"
  shows "\<exists>(p, r) \<in> set (records d). keyLength \<le> length r \<and> key e = take keyLength r
           \<and> offset e = word_of_nat p \<and> sint (offset e) = int p \<and> p < length d
           \<and> r = line_at d p"
proof -
  from assms(1) obtain p r where pr: "(p, r) \<in> set (records d)" "keyLength \<le> length r"
    and e: "e = \<lparr>key = take keyLength r, offset = word_of_nat p\<rparr>"
    by (auto simp: entries_of_def)
  from records_props [OF pr(1)] have p: "p < length d" and r: "r = line_at d p"
    by simp_all
  from p assms(2) have "p < 2 ^ 63" by simp
  then have "sint (word_of_nat p :: 64 word) = int p"
    by (rule sint_word_of_nat)
  with pr e p r show ?thesis
    by (intro bexI [of _ "(p, r)"]) auto
qed

lemma records_entries_of:
  "(p, r) \<in> set (records d) \<Longrightarrow> keyLength \<le> length r \<Longrightarrow>
   \<lparr>key = take keyLength r, offset = word_of_nat p\<rparr> \<in> set (entries_of keyLength (records d))"
  by (force simp: entries_of_def)

section \<open>The listing loop\<close>

lemma list_loop_at_end:
  assumes "good s" and "length (content s) \<le> gpos s"
  shows "list_loop keyLength s df = []"
proof (cases "0 < keyLength")
  case True
  with assms show ?thesis
    by (subst list_loop.simps) (simp add: ifstream_read_at_end)
next
  case False
  with assms show ?thesis
    by (subst list_loop.simps) (simp add: ifstream_read_def good_def)
qed

lemma list_loop_print_lines:
  "good s \<Longrightarrow> gpos s \<le> length (content s) \<Longrightarrow>
   drop (gpos s) (content s) = write_entries keyLength es \<Longrightarrow>
   \<forall>e \<in> set es. length (key e) = keyLength \<Longrightarrow>
   list_loop keyLength s df = print_lines es df"
proof (induction es arbitrary: s df)
  case Nil
  then have "length (content s) \<le> gpos s"
    by simp
  with Nil.prems(1) show ?case
    by (simp add: list_loop_at_end)
next
  case (Cons e es)
  let ?rest = "drop (gpos s) (content s)"
  have rest: "?rest = key e @ offset_bytes (offset e) @ write_entries keyLength es"
    and kl: "length (key e) = keyLength"
    using Cons.prems by (simp_all add: write_entry_def)
  have len: "gpos s + keyLength + 8 \<le> length (content s)"
  proof -
    have "length ?rest = keyLength + 8 + length (write_entries keyLength es)"
      by (simp add: rest kl length_offset_bytes)
    then show ?thesis by simp
  qed
  let ?s1 = "s\<lparr>gpos := gpos s + keyLength\<rparr>"
  let ?s2 = "s\<lparr>gpos := gpos s + keyLength + 8\<rparr>"
  have r1: "ifstream_read keyLength s = (?s1, key e)"
    using Cons.prems(1) len by (simp add: ifstream_read_exact rest kl)
  have g1: "good ?s1"
    using Cons.prems(1) by (simp add: good_def)
  have d1: "drop (gpos s + keyLength) (content s) = offset_bytes (offset e) @ write_entries keyLength es"
    using rest kl by (metis append_eq_conv_conj drop_drop add.commute)
  have r2: "ifstream_read 8 ?s1 = (?s2, offset_bytes (offset e))"
    using g1 len by (simp add: ifstream_read_exact d1 length_offset_bytes)
  have g2: "good ?s2"
    using Cons.prems(1) by (simp add: good_def)
  have d2: "drop (gpos ?s2) (content ?s2) = write_entries keyLength es"
  proof -
    have "drop (gpos s + keyLength + 8) (content s) = drop 8 (drop (gpos s + keyLength) (content s))"
      by (simp add: add.commute)
    then show ?thesis
      by (simp add: d1 length_offset_bytes)
  qed
  have IH: "list_loop keyLength ?s2 df' = print_lines es df'" for df'
    using Cons.IH [OF g2 _ d2] len Cons.prems(4) by simp
  show ?case
    using Cons.prems(1) r1 r2 kl g2
    by (subst list_loop.simps)
       (simp add: offset_of_bytes_offset_bytes IH split: prod.splits)
qed

lemma print_lines_valid:
  "\<not> failbit df \<Longrightarrow>
   \<forall>e \<in> set es. \<exists>p. sint (offset e) = int p \<and> p < length (content df) \<Longrightarrow>
   print_lines es df = map (\<lambda>e. line_at (content df) (nat (sint (offset e)))) es"
proof (induction es arbitrary: df)
  case Nil
  show ?case by simp
next
  case (Cons e es)
  from Cons.prems(2) obtain p where p: "sint (offset e) = int p" "p < length (content df)"
    by auto
  note gs = getline_seekg [OF Cons.prems(1) p(2)]
  let ?df1 = "fst (getline (seekg (int p) df))"
  have "print_lines es ?df1 = map (\<lambda>e. line_at (content ?df1) (nat (sint (offset e)))) es"
    using gs Cons.prems(2) by (intro Cons.IH) simp_all
  then show ?case
    using gs p by (simp add: case_prod_beta)
qed

section \<open>The index a build writes\<close>

lemma file_entries_key_length:
  "sort_contract srt \<Longrightarrow>
   \<forall>e \<in> set (srt compareIndexEntries (entries_of keyLength recs)). length (key e) = keyLength"
  by (simp add: sort_contract_set entries_of_key_length)

lemma load_createIndex_file:
  assumes "sort_contract srt"
  shows "load_loop keyLength (ifstream_open (createIndex_file srt keyLength d)) =
     srt compareIndexEntries (entries_of keyLength (records d))"
  unfolding createIndex_file_eq
  using file_entries_key_length [OF assms] by (rule load_loop_open_write_entries)

lemma length_entries_of:
  "length (entries_of keyLength recs) = length (filter (\<lambda>(p, l). keyLength \<le> length l) recs)"
  by (simp add: entries_of_def)

lemma length_built_index:
  assumes "sort_contract srt"
  shows "length (write_entries keyLength (srt compareIndexEntries (entries_of keyLength recs))) =
     length (filter (\<lambda>(p, l). keyLength \<le> length l) recs) * (keyLength + 8)"
  using file_entries_key_length [OF assms, of keyLength recs]
  by (simp add: length_write_entries sort_contract_length [OF assms] length_entries_of)

text \<open>
  Claim C2. For every data file and key length, the index file a build produces holds
  its keys in non-decreasing byte-lexicographic order when it is read entry by entry
  from the start: the entries read are sorted by key, and written out again they are
  the whole file.
\<close>

theorem index_keys_sorted:
  assumes "sort_contract srt"
  shows "sorted (map key (load_loop keyLength (ifstream_open (createIndex_file srt keyLength d))))
    \<and> write_entries keyLength (load_loop keyLength (ifstream_open (createIndex_file srt keyLength d)))
        = createIndex_file srt keyLength d"
  unfolding load_createIndex_file [OF assms]
  by (simp add: sort_contract_sorted [OF assms] createIndex_file_eq)

lemma records_ba: "records ''bb\<newline>c\<newline>aa\<newline>'' = [(0, ''bb''), (3, ''c''), (5, ''aa'')]"
  by (simp add: records_def read_records.simps getline_def ifstream_open_def good_def
      newline_def Let_def)

lemma entries_ba:
  "insertion_sort compareIndexEntries (entries_of 2 (records ''bb\<newline>c\<newline>aa\<newline>'')) =
     [\<lparr>key = ''aa'', offset = 5\<rparr>, \<lparr>key = ''bb'', offset = 0\<rparr>]"
  by (simp add: records_ba entries_of_def compareIndexEntries_def)

theorem index_keys_sorted_witness:
  "sort_contract insertion_sort \<and>
   map key (load_loop 2 (ifstream_open (createIndex_file insertion_sort 2 ''bb\<newline>c\<newline>aa\<newline>'')))
     = [''aa'', ''bb''] \<and>
   sorted (map key (load_loop 2 (ifstream_open (createIndex_file insertion_sort 2 ''bb\<newline>c\<newline>aa\<newline>''))))"
  using index_keys_sorted [OF sort_contract_insertion_sort, of 2 "''bb\<newline>c\<newline>aa\<newline>''"]
  unfolding load_createIndex_file [OF sort_contract_insertion_sort] entries_ba
  by (simp add: sort_contract_insertion_sort)



text \<open>
  Claim C7. For every data file and key length, the length of the index file a build
  produces is the number of indexed records (the records of at least \<open>keyLength\<close>
  bytes) times the stride \<open>keyLength + 8\<close>, hence a multiple of the stride.
\<close>

theorem stride_integrity:
  assumes "sort_contract srt"
  shows "length (createIndex_file srt keyLength d) =
      length (filter (\<lambda>(p, l). keyLength \<le> length l) (records d)) * (keyLength + 8)
    \<and> length (createIndex_file srt keyLength d) mod (keyLength + 8) = 0
    \<and> length (createIndexInMemorySort_tellg_file srt keyLength d) =
      length (filter (\<lambda>(p, l). keyLength \<le> length l) (records d)) * (keyLength + 8)
    \<and> length (createIndexInMemorySort_tellg_file srt keyLength d) mod (keyLength + 8) = 0"
  by (simp add: createIndex_file_eq createIndexInMemorySort_tellg_file_eq
      length_built_index [OF assms])

theorem stride_integrity_witness:
  "sort_contract insertion_sort \<and>
   length (createIndex_file insertion_sort 2 ''bb\<newline>c\<newline>aa\<newline>'') = 2 * (2 + 8) \<and>
   length (createIndex_file insertion_sort 2 ''bb\<newline>c\<newline>aa\<newline>'') mod (2 + 8) = 0"
  using stride_integrity [OF sort_contract_insertion_sort, of 2 "''bb\<newline>c\<newline>aa\<newline>''"]
  unfolding records_ba
  by (simp add: sort_contract_insertion_sort)



section \<open>Searching a sorted index\<close>

lemma search_loop_probe_loop:
  "good s \<Longrightarrow> content s = idx \<Longrightarrow> high v * (keyLength + 8) \<le> length idx \<Longrightarrow>
   snd (search_loop keyLength k s v) = probe_loop keyLength k idx v"
proof (induction keyLength k s v rule: search_loop.induct)
  case (1 keyLength k s v)
  note g = "1.prems"(1) and c = "1.prems"(2) and h = "1.prems"(3)
  show ?case
  proof (cases "low v < high v \<and> \<not> found v")
    case False
    then show ?thesis
      by (subst search_loop.simps, subst probe_loop.simps) auto
  next
    case True
    then have lh: "low v < high v" by simp
    from search_body_probe [OF g lh, of keyLength k] c h
    obtain s' where sb: "search_body keyLength k s v = (s', probe keyLength k idx v)"
      and g': "good s'" and c': "content s' = idx"
      by auto
    have h': "high (probe keyLength k idx v) * (keyLength + 8) \<le> length idx"
    proof -
      have "high (probe keyLength k idx v) * (keyLength + 8) \<le> high v * (keyLength + 8)"
        using probe_high_le [OF lh] by (rule mult_le_mono1)
      then show ?thesis using h by (rule order_trans)
    qed
    have "snd (search_loop keyLength k s' (probe keyLength k idx v))
        = probe_loop keyLength k idx (probe keyLength k idx v)"
      using "1.IH" [OF True sb [symmetric] g' c' h'] .
    then show ?thesis
      using True sb by (subst search_loop.simps, subst probe_loop.simps) simp
  qed
qed

lemma search_final_probe_loop:
  "search_final keyLength k idx =
     probe_loop keyLength k idx
       \<lparr>low = 0, high = length idx div (keyLength + 8), found = False, recordOffset = 0\<rparr>"
proof -
  have "length idx div (keyLength + 8) * (keyLength + 8) \<le> length idx"
    by simp
  then show ?thesis
    by (simp add: search_final_def search_start_eq search_loop_probe_loop good_def)
qed

lemma last_search_states:
  "last (search_states keyLength k s v) = snd (search_loop keyLength k s v)"
proof (induction keyLength k s v rule: search_loop.induct)
  case (1 keyLength k s v)
  show ?case
  proof (cases "low v < high v \<and> \<not> found v")
    case False
    then show ?thesis
      by (subst search_states.simps, subst search_loop.simps) auto
  next
    case True
    obtain s1 v1 where sb: "search_body keyLength k s v = (s1, v1)"
      by (cases "search_body keyLength k s v")
    have ne: "search_states keyLength k s1 v1 \<noteq> []"
      by (subst search_states.simps) simp
    have "last (search_states keyLength k s1 v1) = snd (search_loop keyLength k s1 v1)"
      using "1.IH" [OF True sb [symmetric]] .
    then show ?thesis
      using True sb ne by (subst search_states.simps, subst search_loop.simps) simp
  qed
qed

lemma search_trace_not_Nil: "search_trace keyLength k idx \<noteq> []"
  by (simp add: search_trace_def search_start_eq, subst search_states.simps, simp)

lemma hd_search_trace:
  "hd (search_trace keyLength k idx) =
     \<lparr>low = 0, high = length idx div (keyLength + 8), found = False, recordOffset = 0\<rparr>"
  by (simp add: search_trace_def search_start_eq, subst search_states.simps, simp)

lemma last_search_trace: "last (search_trace keyLength k idx) = search_final keyLength k idx"
  by (simp add: search_trace_def search_final_def search_start_eq last_search_states)

lemma num_records:
  "\<forall>e \<in> set es. length (key e) = keyLength \<Longrightarrow>
   length (write_entries keyLength es) div (keyLength + 8) = length es"
  by (simp add: length_write_entries)

lemma search_inv_start:
  "search_inv es k \<lparr>low = 0, high = length es, found = False, recordOffset = 0\<rparr>"
  by (simp add: search_inv_def)

lemma search_trace_inv:
  assumes keys: "\<forall>e \<in> set es. length (key e) = keyLength"
    and srt: "sorted (map key es)"
    and mem: "v \<in> set (search_trace keyLength k (write_entries keyLength es))"
  shows "search_inv es k v"
proof -
  let ?idx = "write_entries keyLength es"
  let ?s = "\<lparr>content = ?idx, gpos = 0, eofbit = False, failbit = False\<rparr>"
  let ?v = "\<lparr>low = 0, high = length es, found = False, recordOffset = 0\<rparr>"
  have mem': "v \<in> set (search_states keyLength k ?s ?v)"
    using mem by (simp add: search_trace_def search_start_eq num_records [OF keys])
  show ?thesis
  proof (rule search_states_rule [where I = "search_inv es k" and idx = ?idx and s = ?s and v = ?v])
    fix w :: search_vars
    assume "search_inv es k w" "low w < high w" "\<not> found w"
    then show "search_inv es k (probe keyLength k ?idx w)"
      by (rule search_inv_probe [OF keys srt])
  next
    show "high ?v * (keyLength + 8) \<le> length ?idx"
      by (simp add: length_write_entries [OF keys])
  qed (simp_all add: good_def search_inv_start mem')
qed

lemma search_final_inv:
  assumes keys: "\<forall>e \<in> set es. length (key e) = keyLength"
    and srt: "sorted (map key es)"
  shows "search_inv es k (search_final keyLength k (write_entries keyLength es))"
proof -
  have "search_final keyLength k (write_entries keyLength es)
      \<in> set (search_trace keyLength k (write_entries keyLength es))"
    using last_in_set [OF search_trace_not_Nil] by (simp add: last_search_trace)
  with keys srt show ?thesis by (rule search_trace_inv)
qed

lemma search_final_exit:
  "\<not> (low (search_final keyLength k idx) < high (search_final keyLength k idx)
      \<and> \<not> found (search_final keyLength k idx))"
proof -
  have "\<not> (low (probe_loop keyLength k idx v) < high (probe_loop keyLength k idx v)
      \<and> \<not> found (probe_loop keyLength k idx v))" for v
  proof (induction keyLength k idx v rule: probe_loop.induct)
    case (1 keyLength k idx v)
    show ?case
    proof (cases "low v < high v \<and> \<not> found v")
      case True
      with "1.IH" show ?thesis by (subst (1 2 3) probe_loop.simps) simp
    next
      case False
      then show ?thesis by (subst (1 2 3) probe_loop.simps) auto
    qed
  qed
  then show ?thesis by (simp add: search_final_probe_loop)
qed

lemma search_final_found_iff:
  assumes keys: "\<forall>e \<in> set es. length (key e) = keyLength"
    and srt: "sorted (map key es)"
  shows "found (search_final keyLength k (write_entries keyLength es)) \<longleftrightarrow> k \<in> key ` set es"
proof
  let ?vf = "search_final keyLength k (write_entries keyLength es)"
  note inv = search_final_inv [OF keys srt, of k]
  assume "found ?vf"
  with inv obtain m where "m < length es" "key (es ! m) = k"
    by (auto simp: search_inv_def)
  then show "k \<in> key ` set es"
    by (metis imageI nth_mem)
next
  let ?vf = "search_final keyLength k (write_entries keyLength es)"
  note inv = search_final_inv [OF keys srt, of k]
  assume "k \<in> key ` set es"
  then obtain i where i: "i < length es" "key (es ! i) = k"
    by (auto simp: in_set_conv_nth)
  with inv have "low ?vf \<le> i \<and> i < high ?vf"
    by (simp add: search_inv_def)
  then have "low ?vf < high ?vf" by simp
  with search_final_exit [of keyLength k "write_entries keyLength es"] show "found ?vf"
    by auto
qed

section \<open>What a search prints\<close>

lemma found_prints_record:
  assumes sc: "sort_contract srt" and len: "length d < 2 ^ 63"
    and df: "data_file fs = Some d"
    and ix: "index_file fs = Some (createIndex_file srt keyLength d)"
    and fd: "found (search_final keyLength k (createIndex_file srt keyLength d))"
  shows "\<exists>(p, r) \<in> set (records d). keyLength \<le> length r \<and> take keyLength r = k \<and>
           searchForKey fs k keyLength = \<lparr>cout = [r], cerr = []\<rparr>"
proof -
  let ?es = "srt compareIndexEntries (entries_of keyLength (records d))"
  let ?vf = "search_final keyLength k (write_entries keyLength ?es)"
  note keys = file_entries_key_length [OF sc, of keyLength "records d"]
  have inv: "search_inv ?es k ?vf"
    using keys sort_contract_sorted [OF sc] by (rule search_final_inv)
  from fd have "found ?vf" by (simp add: createIndex_file_eq)
  with inv obtain m where m: "m < length ?es" "key (?es ! m) = k"
      "recordOffset ?vf = offset (?es ! m)"
    by (auto simp: search_inv_def)
  from m(1) have "?es ! m \<in> set (entries_of keyLength (records d))"
    using sort_contract_set [OF sc, of "entries_of keyLength (records d)"] nth_mem by blast
  from entries_of_records [OF this len]
  obtain p r where pr: "(p, r) \<in> set (records d)" "keyLength \<le> length r"
      "key (?es ! m) = take keyLength r" "sint (offset (?es ! m)) = int p" "r = line_at d p"
    by auto
  have "searchForKey fs k keyLength = \<lparr>cout = [r], cerr = []\<rparr>"
    using df ix fd m(3) pr(4,5)
    by (simp add: searchForKey_def createIndex_file_eq getline_seekg_open)
  with pr m(2) show ?thesis
    by (intro bexI [of _ "(p, r)"]) auto
qed

lemma not_found_prints_message:
  assumes "data_file fs = Some d" and "index_file fs = Some idx"
    and "\<not> found (search_final keyLength k idx)"
  shows "searchForKey fs k keyLength = \<lparr>cout = [''Record not found''], cerr = []\<rparr>"
  using assms by (simp add: searchForKey_def)

lemma found_iff_key_stored:
  assumes sc: "sort_contract srt"
  shows "found (search_final keyLength k (createIndex_file srt keyLength d)) \<longleftrightarrow>
    k \<in> key ` set (entries_of keyLength (records d))"
  unfolding createIndex_file_eq
  using search_final_found_iff [OF file_entries_key_length [OF sc] sort_contract_sorted [OF sc],
      where k = k and keyLength = keyLength]
  by (simp add: sort_contract_set [OF sc])

text \<open>
  Claim C3. In the search loop over the index a build wrote, each time the loop
  condition is evaluated every entry whose key equals the target key lies in
  \<open>[low, high)\<close>. The loop ends: the trace of its states is a finite list whose first
  state is \<open>low = 0\<close>, \<open>high\<close> the number of entries, and whose last state is the
  result, in which either nothing was found and \<open>low = high\<close>, or \<open>found\<close> is set and
  \<open>recordOffset\<close> is the offset of an entry whose key is the target key.
\<close>

theorem binary_search_invariant:
  fixes srt :: sorter and keyLength :: nat and d k :: string
  defines "idx \<equiv> createIndex_file srt keyLength d"
  defines "es \<equiv> load_loop keyLength (ifstream_open idx)"
  assumes sc: "sort_contract srt"
  shows "(\<forall>v \<in> set (search_trace keyLength k idx).
            \<forall>i < length es. key (es ! i) = k \<longrightarrow> low v \<le> i \<and> i < high v)
    \<and> hd (search_trace keyLength k idx) =
        \<lparr>low = 0, high = length es, found = False, recordOffset = 0\<rparr>
    \<and> last (search_trace keyLength k idx) = search_final keyLength k idx
    \<and> ((\<not> found (search_final keyLength k idx) \<and>
         low (search_final keyLength k idx) = high (search_final keyLength k idx))
       \<or> (found (search_final keyLength k idx) \<and>
           (\<exists>m < length es. key (es ! m) = k \<and>
              recordOffset (search_final keyLength k idx) = offset (es ! m))))"
proof -
  let ?es = "srt compareIndexEntries (entries_of keyLength (records d))"
  have es: "es = ?es"
    unfolding es_def idx_def by (rule load_createIndex_file [OF sc])
  have idx: "idx = write_entries keyLength es"
    unfolding es idx_def by (rule createIndex_file_eq)
  have keys: "\<forall>e \<in> set es. length (key e) = keyLength"
    unfolding es by (rule file_entries_key_length [OF sc])
  have srt: "sorted (map key es)"
    unfolding es by (rule sort_contract_sorted [OF sc])
  have 1: "\<forall>v \<in> set (search_trace keyLength k idx).
      \<forall>i < length es. key (es ! i) = k \<longrightarrow> low v \<le> i \<and> i < high v"
  proof
    fix v assume "v \<in> set (search_trace keyLength k idx)"
    then have "search_inv es k v"
      unfolding idx using keys srt by (intro search_trace_inv)
    then show "\<forall>i < length es. key (es ! i) = k \<longrightarrow> low v \<le> i \<and> i < high v"
      by (simp add: search_inv_def)
  qed
  have 2: "hd (search_trace keyLength k idx) =
      \<lparr>low = 0, high = length es, found = False, recordOffset = 0\<rparr>"
    using num_records [OF keys] by (simp add: hd_search_trace idx [symmetric])
  have 3: "last (search_trace keyLength k idx) = search_final keyLength k idx"
    by (rule last_search_trace)
  have inv: "search_inv es k (search_final keyLength k idx)"
    unfolding idx using keys srt by (rule search_final_inv)
  have 4: "(\<not> found (search_final keyLength k idx) \<and>
         low (search_final keyLength k idx) = high (search_final keyLength k idx))
       \<or> (found (search_final keyLength k idx) \<and>
           (\<exists>m < length es. key (es ! m) = k \<and>
              recordOffset (search_final keyLength k idx) = offset (es ! m)))"
    using inv search_final_exit [of keyLength k idx]
    by (auto simp: search_inv_def)
  from 1 2 3 4 show ?thesis by blast
qed

theorem binary_search_invariant_witness:
  "sort_contract insertion_sort \<and>
   found (search_final 2 ''aa'' (createIndex_file insertion_sort 2 ''bb\<newline>c\<newline>aa\<newline>'')) \<and>
   recordOffset (search_final 2 ''aa'' (createIndex_file insertion_sort 2 ''bb\<newline>c\<newline>aa\<newline>'')) = 5"
proof -
  let ?idx = "createIndex_file insertion_sort 2 ''bb\<newline>c\<newline>aa\<newline>''"
  let ?es = "[\<lparr>key = ''aa'', offset = 5\<rparr>, \<lparr>key = ''bb'', offset = 0\<rparr>]"
  let ?vf = "search_final 2 ''aa'' ?idx"
  note sc = sort_contract_insertion_sort
  have es: "load_loop 2 (ifstream_open ?idx) = ?es"
    by (simp only: load_createIndex_file [OF sc] entries_ba)
  note t = binary_search_invariant [OF sc, of 2 "''aa''" "''bb\<newline>c\<newline>aa\<newline>''", unfolded es]
  from t have inv: "\<forall>v \<in> set (search_trace 2 ''aa'' ?idx).
      \<forall>i < length ?es. key (?es ! i) = ''aa'' \<longrightarrow> low v \<le> i \<and> i < high v"
    and lst: "last (search_trace 2 ''aa'' ?idx) = ?vf"
    and fin: "(\<not> found ?vf \<and> low ?vf = high ?vf)
       \<or> (found ?vf \<and> (\<exists>m < length ?es. key (?es ! m) = ''aa'' \<and> recordOffset ?vf = offset (?es ! m)))"
    by blast+
  have "?vf \<in> set (search_trace 2 ''aa'' ?idx)"
    using last_in_set [OF search_trace_not_Nil, of 2 "''aa''" ?idx] lst by simp
  with inv have "low ?vf \<le> 0 \<and> 0 < high ?vf"
    by fastforce
  with fin have fd: "found ?vf"
    and ex: "\<exists>m < length ?es. key (?es ! m) = ''aa'' \<and> recordOffset ?vf = offset (?es ! m)"
    by auto
  from ex obtain m where m: "m < length ?es" "key (?es ! m) = ''aa''"
      "recordOffset ?vf = offset (?es ! m)"
    by blast
  from m(1) have "m = 0 \<or> m = 1" by auto
  with m(2,3) have "recordOffset ?vf = 5" by auto
  with fd sc show ?thesis by simp
qed

section \<open>What the listing prints\<close>

lemma list_built:
  assumes sc: "sort_contract srt" and len: "length d < 2 ^ 63"
    and df: "data_file fs = Some d"
    and ix: "index_file fs = Some (createIndex_file srt keyLength d)"
  shows "listRecords fs keyLength =
    \<lparr>cout = map (\<lambda>e. line_at d (nat (sint (offset e))))
              (srt compareIndexEntries (entries_of keyLength (records d))),
     cerr = []\<rparr>"
proof -
  let ?es = "srt compareIndexEntries (entries_of keyLength (records d))"
  note keys = file_entries_key_length [OF sc, of keyLength "records d"]
  have "list_loop keyLength (ifstream_open (write_entries keyLength ?es)) (ifstream_open d)
      = print_lines ?es (ifstream_open d)"
    using keys
    by (intro list_loop_print_lines) (simp_all add: good_ifstream_open, simp_all add: ifstream_open_def)
  also have "\<dots> = map (\<lambda>e. line_at (content (ifstream_open d)) (nat (sint (offset e)))) ?es"
  proof (rule print_lines_valid)
    show "\<not> failbit (ifstream_open d)" by (simp add: ifstream_open_def)
    show "\<forall>e \<in> set ?es. \<exists>p. sint (offset e) = int p \<and> p < length (content (ifstream_open d))"
    proof
      fix e assume "e \<in> set ?es"
      then have "e \<in> set (entries_of keyLength (records d))"
        by (simp add: sort_contract_set [OF sc])
      from entries_of_records [OF this len]
      show "\<exists>p. sint (offset e) = int p \<and> p < length (content (ifstream_open d))"
        by (auto simp: ifstream_open_def)
    qed
  qed
  finally show ?thesis
    using df ix by (simp add: listRecords_def createIndex_file_eq ifstream_open_def)
qed

lemma listed_is_long:
  assumes sc: "sort_contract srt" and len: "length d < 2 ^ 63"
    and df: "data_file fs = Some d"
    and ix: "index_file fs = Some (createIndex_file srt keyLength d)"
    and r: "r \<in> set (cout (listRecords fs keyLength))"
  shows "keyLength \<le> length r"
proof -
  from r obtain e where e: "e \<in> set (srt compareIndexEntries (entries_of keyLength (records d)))"
      and re: "r = line_at d (nat (sint (offset e)))"
    unfolding list_built [OF sc len df ix] by auto
  from e have "e \<in> set (entries_of keyLength (records d))"
    by (simp add: sort_contract_set [OF sc])
  from entries_of_records [OF this len] re show ?thesis
    by auto
qed

text \<open>
  Claim C6. Over an index built from the data file, a search for a key that no entry
  of the index holds prints the literal line \<open>Record not found\<close>; and whatever the key,
  a search that prints a record prints a record of the data file whose first
  \<open>keyLength\<close> bytes are the search key.
\<close>

theorem absent_key_not_found:
  fixes srt :: sorter and keyLength :: nat and d k :: string and fs :: filesystem
  defines "idx \<equiv> createIndex_file srt keyLength d"
  assumes sc: "sort_contract srt" and len: "length d < 2 ^ 63"
    and df: "data_file fs = Some d" and ix: "index_file fs = Some idx"
  shows "(k \<notin> set (map key (load_loop keyLength (ifstream_open idx))) \<longrightarrow>
            searchForKey fs k keyLength = \<lparr>cout = [''Record not found''], cerr = []\<rparr>)
    \<and> (searchForKey fs k keyLength = \<lparr>cout = [''Record not found''], cerr = []\<rparr>
          \<and> \<not> found (search_final keyLength k idx)
        \<or> found (search_final keyLength k idx) \<and>
          (\<exists>(p, r) \<in> set (records d). keyLength \<le> length r \<and> take keyLength r = k \<and>
             searchForKey fs k keyLength = \<lparr>cout = [r], cerr = []\<rparr>))"
proof -
  have stored: "found (search_final keyLength k idx) \<longleftrightarrow>
      k \<in> set (map key (load_loop keyLength (ifstream_open idx)))"
    unfolding idx_def
    by (simp add: found_iff_key_stored [OF sc] load_createIndex_file [OF sc]
        sort_contract_set [OF sc])
  have nf: "\<not> found (search_final keyLength k idx) \<Longrightarrow>
      searchForKey fs k keyLength = \<lparr>cout = [''Record not found''], cerr = []\<rparr>"
    using df ix by (rule not_found_prints_message)
  have fd: "found (search_final keyLength k idx) \<Longrightarrow>
      \<exists>(p, r) \<in> set (records d). keyLength \<le> length r \<and> take keyLength r = k \<and>
             searchForKey fs k keyLength = \<lparr>cout = [r], cerr = []\<rparr>"
    using sc len df ix unfolding idx_def by (rule found_prints_record)
  from stored nf fd show ?thesis by blast
qed

theorem absent_key_not_found_witness:
  "sort_contract insertion_sort \<and>
   ''zz'' \<notin> set (map key (load_loop 2 (ifstream_open
      (createIndex_file insertion_sort 2 ''bb\<newline>c\<newline>aa\<newline>'')))) \<and>
   searchForKey
     \<lparr>data_file = Some ''bb\<newline>c\<newline>aa\<newline>'',
      index_file = Some (createIndex_file insertion_sort 2 ''bb\<newline>c\<newline>aa\<newline>''),
      temp_file = None, index_writable = True, temp_writable = True\<rparr> ''zz'' 2
   = \<lparr>cout = [''Record not found''], cerr = []\<rparr>"
proof -
  note sc = sort_contract_insertion_sort
  have es: "load_loop 2 (ifstream_open (createIndex_file insertion_sort 2 ''bb\<newline>c\<newline>aa\<newline>''))
      = [\<lparr>key = ''aa'', offset = 5\<rparr>, \<lparr>key = ''bb'', offset = 0\<rparr>]"
    by (simp only: load_createIndex_file [OF sc] entries_ba)
  have absent: "''zz'' \<notin> set (map key (load_loop 2 (ifstream_open
      (createIndex_file insertion_sort 2 ''bb\<newline>c\<newline>aa\<newline>''))))"
    unfolding es by simp
  have len: "length ''bb\<newline>c\<newline>aa\<newline>'' < 2 ^ 63" by simp
  from absent_key_not_found [OF sc len, of
      "\<lparr>data_file = Some ''bb\<newline>c\<newline>aa\<newline>'',
        index_file = Some (createIndex_file insertion_sort 2 ''bb\<newline>c\<newline>aa\<newline>''),
        temp_file = None, index_writable = True, temp_writable = True\<rparr>" 2 "''zz''"]
    absent sc
  show ?thesis by simp
qed

section \<open>Round trip\<close>

text \<open>
  Claim C1, as amended. For every data file, key length and record of at least
  \<open>keyLength\<close> bytes, a search over the built index with the record's first
  \<open>keyLength\<close> bytes prints the full line of a record of the data file that starts
  with these bytes; it is the record itself when every record with these first bytes
  has the same content.
\<close>

theorem search_finds_record_with_key:
  assumes sc: "sort_contract srt" and len: "length d < 2 ^ 63"
    and df: "data_file fs = Some d"
    and ix: "index_file fs = Some (createIndex_file srt keyLength d)"
    and rec: "(p, r) \<in> set (records d)" and long: "keyLength \<le> length r"
  shows "(\<exists>(p', r') \<in> set (records d). keyLength \<le> length r' \<and>
            take keyLength r' = take keyLength r \<and>
            searchForKey fs (take keyLength r) keyLength = \<lparr>cout = [r'], cerr = []\<rparr>)
    \<and> ((\<forall>(p', r') \<in> set (records d).
            keyLength \<le> length r' \<and> take keyLength r' = take keyLength r \<longrightarrow> r' = r) \<longrightarrow>
          searchForKey fs (take keyLength r) keyLength = \<lparr>cout = [r], cerr = []\<rparr>)"
proof -
  have "\<lparr>key = take keyLength r, offset = word_of_nat p\<rparr> \<in> set (entries_of keyLength (records d))"
    using rec long by (rule records_entries_of)
  then have "take keyLength r \<in> key ` set (entries_of keyLength (records d))"
    by force
  then have "found (search_final keyLength (take keyLength r) (createIndex_file srt keyLength d))"
    by (simp add: found_iff_key_stored [OF sc])
  with sc len df ix
  have ex: "\<exists>(p', r') \<in> set (records d). keyLength \<le> length r' \<and>
            take keyLength r' = take keyLength r \<and>
            searchForKey fs (take keyLength r) keyLength = \<lparr>cout = [r'], cerr = []\<rparr>"
    by (rule found_prints_record)
  then show ?thesis by fastforce
qed

lemma records_scenario:
  "records ''AAAA-1\<newline>BBBB-2\<newline>CCCC-3\<newline>'' =
     [(0, ''AAAA-1''), (7, ''BBBB-2''), (14, ''CCCC-3'')]"
  by (simp add: records_def read_records.simps getline_def ifstream_open_def good_def
      newline_def Let_def)

theorem search_finds_record_with_key_witness:
  "sort_contract insertion_sort \<and>
   (7, ''BBBB-2'') \<in> set (records ''AAAA-1\<newline>BBBB-2\<newline>CCCC-3\<newline>'') \<and>
   searchForKey
     \<lparr>data_file = Some ''AAAA-1\<newline>BBBB-2\<newline>CCCC-3\<newline>'',
      index_file = Some (createIndex_file insertion_sort 4 ''AAAA-1\<newline>BBBB-2\<newline>CCCC-3\<newline>''),
      temp_file = None, index_writable = True, temp_writable = True\<rparr> ''BBBB'' 4
   = \<lparr>cout = [''BBBB-2''], cerr = []\<rparr>"
proof -
  note sc = sort_contract_insertion_sort
  let ?d = "''AAAA-1\<newline>BBBB-2\<newline>CCCC-3\<newline>''"
  let ?fs = "\<lparr>data_file = Some ?d, index_file = Some (createIndex_file insertion_sort 4 ?d),
      temp_file = None, index_writable = True, temp_writable = True\<rparr>"
  have len: "length ?d < 2 ^ 63" by simp
  have rec: "(7, ''BBBB-2'') \<in> set (records ?d)"
    by (simp add: records_scenario)
  have long: "4 \<le> length ''BBBB-2''" by simp
  have uniq: "\<forall>(p', r') \<in> set (records ?d).
      4 \<le> length r' \<and> take 4 r' = take 4 ''BBBB-2'' \<longrightarrow> r' = ''BBBB-2''"
    by (simp add: records_scenario)
  from search_finds_record_with_key [OF sc len _ _ rec long, of ?fs] uniq
  have "searchForKey ?fs (take 4 ''BBBB-2'') 4 = \<lparr>cout = [''BBBB-2''], cerr = []\<rparr>"
    by simp
  with sc rec show ?thesis by simp
qed

lemma records_duplicates:
  "records ''AAAA-1\<newline>AAAA-2\<newline>'' = [(0, ''AAAA-1''), (7, ''AAAA-2'')]"
  by (simp add: records_def read_records.simps getline_def ifstream_open_def good_def
      newline_def Let_def)

lemma index_duplicates:
  "createIndex_file insertion_sort 4 ''AAAA-1\<newline>AAAA-2\<newline>'' =
     write_entries 4 [\<lparr>key = ''AAAA'', offset = 0\<rparr>, \<lparr>key = ''AAAA'', offset = 7\<rparr>]"
  by (simp add: createIndex_file_eq records_duplicates entries_of_def compareIndexEntries_def
      del: write_entries.simps)

lemma search_duplicates:
  "search_final 4 ''AAAA''
     (write_entries 4 [\<lparr>key = ''AAAA'', offset = 0\<rparr>, \<lparr>key = ''AAAA'', offset = 7\<rparr>])
   = \<lparr>low = 0, high = 2, found = True, recordOffset = 7\<rparr>"
proof -
  let ?es = "[\<lparr>key = ''AAAA'', offset = 0\<rparr>, \<lparr>key = ''AAAA'', offset = 7\<rparr>]"
  let ?v0 = "\<lparr>low = 0, high = 2, found = False, recordOffset = 0\<rparr>"
  have keys: "\<forall>e \<in> set ?es. length (key e) = 4" by simp
  have n: "length (write_entries 4 ?es) div (4 + 8) = 2"
    using num_records [OF keys] by simp
  have p: "probe 4 ''AAAA'' (write_entries 4 ?es) ?v0 = ?v0\<lparr>found := True, recordOffset := 7\<rparr>"
    by (subst probe_entries [OF keys]) simp_all
  have "search_final 4 ''AAAA'' (write_entries 4 ?es) = probe_loop 4 ''AAAA'' (write_entries 4 ?es) ?v0"
    by (simp only: search_final_probe_loop n)
  also have "\<dots> = probe_loop 4 ''AAAA'' (write_entries 4 ?es) (?v0\<lparr>found := True, recordOffset := 7\<rparr>)"
    by (subst probe_loop.simps) (simp add: p del: write_entries.simps)
  also have "\<dots> = ?v0\<lparr>found := True, recordOffset := 7\<rparr>"
    by (subst probe_loop.simps) simp
  finally show ?thesis by simp
qed

theorem search_duplicate_key_counterexample:
  "(0, ''AAAA-1'') \<in> set (records ''AAAA-1\<newline>AAAA-2\<newline>'') \<and>
   4 \<le> length ''AAAA-1'' \<and>
   searchForKey
     \<lparr>data_file = Some ''AAAA-1\<newline>AAAA-2\<newline>'',
      index_file = Some (createIndex_file insertion_sort 4 ''AAAA-1\<newline>AAAA-2\<newline>''),
      temp_file = None, index_writable = True, temp_writable = True\<rparr> (take 4 ''AAAA-1'') 4
   = \<lparr>cout = [''AAAA-2''], cerr = []\<rparr>"
proof -
  have "snd (getline (seekg (sint (7 :: 64 word)) (ifstream_open ''AAAA-1\<newline>AAAA-2\<newline>'')))
      = ''AAAA-2''"
    by (simp add: getline_def seekg_def ifstream_open_def good_def newline_def Let_def)
  then show ?thesis
    by (simp add: records_duplicates searchForKey_def index_duplicates search_duplicates
        del: write_entries.simps)
qed

section \<open>Offsets and short records\<close>

text \<open>
  Claim C8. Every entry a build writes pairs the first \<open>keyLength\<close> bytes of a record
  with the position of that record's first byte in the data file, counted in bytes:
  the line that starts at this position is the record, and seeking the data file to
  the stored offset and reading one line yields the record. The entries are those of
  the final index file, those of the temporary file of \<open>createIndex\<close>, and those the
  loop of the in-memory build collects.
\<close>

theorem entry_offsets:
  assumes sc: "sort_contract srt" and len: "length d < 2 ^ 63"
    and e: "e \<in> set (load_loop keyLength (ifstream_open (createIndex_file srt keyLength d)))
      \<or> e \<in> set (load_loop keyLength
              (ifstream_open (write_temp_loop keyLength (ifstream_open d) 0)))
      \<or> e \<in> set (inmemory_loop_tellg keyLength (ifstream_open d) 0)"
  shows "\<exists>(p, r) \<in> set (records d).
           keyLength \<le> length r \<and> key e = take keyLength r \<and>
           offset e = word_of_nat p \<and> sint (offset e) = int p \<and>
           r = takeWhile (\<lambda>c. c \<noteq> newline) (drop p d) \<and>
           snd (getline (seekg (sint (offset e)) (ifstream_open d))) = r"
proof -
  from e have "e \<in> set (entries_of keyLength (records d))"
    by (simp add: load_createIndex_file [OF sc] sort_contract_set [OF sc] load_temp_file
        inmemory_loop_tellg_open)
  from entries_of_records [OF this len]
  obtain p r where pr: "(p, r) \<in> set (records d)" "keyLength \<le> length r"
      "key e = take keyLength r" "offset e = word_of_nat p" "sint (offset e) = int p"
      "r = line_at d p"
    by auto
  have "snd (getline (seekg (sint (offset e)) (ifstream_open d))) = r"
    by (simp add: pr(5,6) getline_seekg_open)
  with pr show ?thesis
    by (intro bexI [of _ "(p, r)"]) (auto simp: line_at_def)
qed

theorem entry_offsets_witness:
  "sort_contract insertion_sort \<and>
   \<lparr>key = ''aa'', offset = 5\<rparr> \<in> set (load_loop 2 (ifstream_open
      (createIndex_file insertion_sort 2 ''bb\<newline>c\<newline>aa\<newline>''))) \<and>
   (5, ''aa'') \<in> set (records ''bb\<newline>c\<newline>aa\<newline>'') \<and>
   snd (getline (seekg (sint (5 :: 64 word)) (ifstream_open ''bb\<newline>c\<newline>aa\<newline>''))) = ''aa''"
proof -
  note sc = sort_contract_insertion_sort
  let ?d = "''bb\<newline>c\<newline>aa\<newline>''"
  let ?e = "\<lparr>key = ''aa'', offset = 5 :: 64 word\<rparr>"
  have es: "load_loop 2 (ifstream_open (createIndex_file insertion_sort 2 ?d))
      = [\<lparr>key = ''aa'', offset = 5\<rparr>, \<lparr>key = ''bb'', offset = 0\<rparr>]"
    by (simp only: load_createIndex_file [OF sc] entries_ba)
  have mem: "?e \<in> set (load_loop 2 (ifstream_open (createIndex_file insertion_sort 2 ?d)))"
    unfolding es by simp
  have len: "length ?d < 2 ^ 63" by simp
  from entry_offsets [OF sc len disjI1, OF mem]
  obtain p r where pr: "(p, r) \<in> set (records ?d)" "key ?e = take 2 r" "2 \<le> length r"
      "snd (getline (seekg (sint (offset ?e)) (ifstream_open ?d))) = r"
    by auto
  from pr(1,2,3) have "r = ''aa''"
    by (auto simp: records_ba)
  with pr(4) have "snd (getline (seekg (sint (5 :: 64 word)) (ifstream_open ?d))) = ''aa''"
    by simp
  with sc mem show ?thesis
    by (simp add: records_ba)
qed

text \<open>
  Claim C9. A record shorter than \<open>keyLength\<close> gets no entry in a build: the entries of
  the index are those of the records of at least \<open>keyLength\<close> bytes, and none holds the
  position of the short record. No search prints it, whatever the key: a search that
  found an entry prints another line, and a search that found none prints the
  not-found line. It is not among the lines the listing prints.
\<close>

theorem short_records_excluded:
  fixes srt :: sorter and keyLength p :: nat and d r :: string and fs :: filesystem
  defines "idx \<equiv> createIndex_file srt keyLength d"
  assumes sc: "sort_contract srt" and len: "length d < 2 ^ 63"
    and df: "data_file fs = Some d" and ix: "index_file fs = Some idx"
    and rec: "(p, r) \<in> set (records d)" and short: "length r < keyLength"
  shows "mset (load_loop keyLength (ifstream_open idx)) =
      mset (map (\<lambda>(p, l). \<lparr>key = take keyLength l, offset = word_of_nat p\<rparr>)
             (filter (\<lambda>(p, l). keyLength \<le> length l) (records d)))
    \<and> (\<forall>e \<in> set (load_loop keyLength (ifstream_open idx)). offset e \<noteq> word_of_nat p)
    \<and> (\<forall>k. found (search_final keyLength k idx) \<longrightarrow> cout (searchForKey fs k keyLength) \<noteq> [r])
    \<and> (\<forall>k. \<not> found (search_final keyLength k idx) \<longrightarrow>
          cout (searchForKey fs k keyLength) = [''Record not found''])
    \<and> r \<notin> set (cout (listRecords fs keyLength))"
proof -
  have es: "load_loop keyLength (ifstream_open idx) =
      srt compareIndexEntries (entries_of keyLength (records d))"
    unfolding idx_def by (rule load_createIndex_file [OF sc])
  have 1: "mset (load_loop keyLength (ifstream_open idx)) =
      mset (map (\<lambda>(p, l). \<lparr>key = take keyLength l, offset = word_of_nat p\<rparr>)
             (filter (\<lambda>(p, l). keyLength \<le> length l) (records d)))"
    unfolding es by (simp add: sort_contract_mset [OF sc] entries_of_def)
  from records_props [OF rec] have p: "p < length d" and r: "r = line_at d p"
    by simp_all
  from p len have "p < 2 ^ 63" by simp
  then have sp: "sint (word_of_nat p :: 64 word) = int p"
    by (rule sint_word_of_nat)
  have 2: "\<forall>e \<in> set (load_loop keyLength (ifstream_open idx)). offset e \<noteq> word_of_nat p"
  proof
    fix e assume "e \<in> set (load_loop keyLength (ifstream_open idx))"
    then have "e \<in> set (entries_of keyLength (records d))"
      by (simp add: es sort_contract_set [OF sc])
    from entries_of_records [OF this len]
    obtain p' r' where pr': "keyLength \<le> length r'" "sint (offset e) = int p'" "r' = line_at d p'"
      by auto
    show "offset e \<noteq> word_of_nat p"
    proof
      assume "offset e = word_of_nat p"
      with sp pr'(2) have "p' = p" by simp
      with pr'(3) r have "r' = r" by simp
      with pr'(1) short show False by simp
    qed
  qed
  have 3: "\<forall>k. found (search_final keyLength k idx) \<longrightarrow> cout (searchForKey fs k keyLength) \<noteq> [r]"
  proof (intro allI impI)
    fix k assume "found (search_final keyLength k idx)"
    with sc len df ix [unfolded idx_def]
    have "\<exists>(p', r') \<in> set (records d). keyLength \<le> length r' \<and> take keyLength r' = k \<and>
        searchForKey fs k keyLength = \<lparr>cout = [r'], cerr = []\<rparr>"
      unfolding idx_def by (rule found_prints_record)
    with short show "cout (searchForKey fs k keyLength) \<noteq> [r]"
      by auto
  qed
  have 4: "\<forall>k. \<not> found (search_final keyLength k idx) \<longrightarrow>
      cout (searchForKey fs k keyLength) = [''Record not found'']"
    using not_found_prints_message [OF df ix] by simp
  have 5: "r \<notin> set (cout (listRecords fs keyLength))"
  proof
    assume "r \<in> set (cout (listRecords fs keyLength))"
    with sc len df ix [unfolded idx_def] have "keyLength \<le> length r"
      by (rule listed_is_long)
    with short show False by simp
  qed
  from 1 2 3 4 5 show ?thesis by blast
qed

theorem short_records_excluded_witness:
  "sort_contract insertion_sort \<and>
   (3, ''c'') \<in> set (records ''bb\<newline>c\<newline>aa\<newline>'') \<and>
   ''c'' \<notin> set (cout (listRecords
     \<lparr>data_file = Some ''bb\<newline>c\<newline>aa\<newline>'',
      index_file = Some (createIndex_file insertion_sort 2 ''bb\<newline>c\<newline>aa\<newline>''),
      temp_file = None, index_writable = True, temp_writable = True\<rparr> 2)) \<and>
   cout (searchForKey
     \<lparr>data_file = Some ''bb\<newline>c\<newline>aa\<newline>'',
      index_file = Some (createIndex_file insertion_sort 2 ''bb\<newline>c\<newline>aa\<newline>''),
      temp_file = None, index_writable = True, temp_writable = True\<rparr> ''c'' 2)
     = [''Record not found'']"
proof -
  note sc = sort_contract_insertion_sort
  let ?d = "''bb\<newline>c\<newline>aa\<newline>''"
  let ?fs = "\<lparr>data_file = Some ?d, index_file = Some (createIndex_file insertion_sort 2 ?d),
      temp_file = None, index_writable = True, temp_writable = True\<rparr>"
  have len: "length ?d < 2 ^ 63" by simp
  have rec: "(3, ''c'') \<in> set (records ?d)"
    by (simp add: records_ba)
  have short: "length ''c'' < (2::nat)" by simp
  have nf: "\<not> found (search_final 2 ''c'' (createIndex_file insertion_sort 2 ?d))"
    by (rule search_final_wrong_length) simp
  from short_records_excluded [OF sc len _ _ rec short, of ?fs] nf
  have "''c'' \<notin> set (cout (listRecords ?fs 2))"
    and "cout (searchForKey ?fs ''c'' 2) = [''Record not found'']"
    by simp_all
  with sc rec show ?thesis by simp
qed

section \<open>Exit status\<close>





text \<open>
  A search that returns although the stride wrapped found the index shorter than the
  wrapped stride: its loop never ran, as in \<open>searchForKey\<close> here.
\<close>

lemma searchForKey_wrapped_returns:
  assumes "searchForKey_killed fs keyLength = None" and "\<not> allocatable keyLength"
    and "index_file fs = Some idx" and "data_file fs = Some d"
  shows "searchForKey fs k keyLength = \<lparr>cout = [''Record not found''], cerr = []\<rparr>"
proof -
  let ?stride = "(keyLength + 8) mod 2 ^ 64"
  from assms have st: "?stride \<noteq> 0" and q: "length idx div ?stride = 0"
    by (auto simp: searchForKey_killed_def Let_def split: if_splits)
  from q st have "length idx < ?stride"
    by (simp add: div_eq_0_iff)
  also have "?stride \<le> keyLength + 8"
    by simp
  finally have "length idx div (keyLength + 8) = 0"
    by simp
  then have "search_final keyLength k idx =
      \<lparr>low = 0, high = 0, found = False, recordOffset = 0\<rparr>"
    by (simp add: search_final_probe_loop, subst probe_loop.simps, simp)
  with assms(3,4) show ?thesis
    by (simp add: searchForKey_def)
qed



lemma atoi_minus_1: "size_t_of_int (atoi ''-1'') = 2 ^ 64 - 1"
  by (simp add: atoi_def strtol_def int_of_long_def isspace_def isdigit_def size_t_of_int_def)

lemma atoi_truncates: "atoi ''4294967300'' = 4"
  by (simp add: atoi_def strtol_def int_of_long_def isspace_def isdigit_def)



text \<open>
  Runs that are killed: a build and a search with the key length argument \<open>-1\<close>, and a
  search with \<open>-8\<close>.
\<close>

lemma size_t_minus_8: "size_t_of_int (atoi ''-8'') = 2 ^ 64 - 8"
  by (simp add: atoi_def strtol_def int_of_long_def isspace_def isdigit_def size_t_of_int_def)

lemma main_negative_key_length:
  "exit_status (main srt
      \<lparr>data_file = Some ''bb\<newline>c\<newline>aa\<newline>'', index_file = None, temp_file = None,
       index_writable = True, temp_writable = True\<rparr>
      [''INDEX'', ''-c'', ''data.txt'', ''index.idx'', ''-1'']) = Aborted"
  and "exit_status (main srt
      \<lparr>data_file = Some ''bb\<newline>c\<newline>aa\<newline>'', index_file = Some ''0123456789'', temp_file = None,
       index_writable = True, temp_writable = True\<rparr>
      [''INDEX'', ''-s'', ''data.txt'', ''index.idx'', ''-1'', ''aa'']) = Aborted"
  and "exit_status (main srt
      \<lparr>data_file = Some ''bb\<newline>c\<newline>aa\<newline>'', index_file = Some ''0123456789'', temp_file = None,
       index_writable = True, temp_writable = True\<rparr>
      [''INDEX'', ''-s'', ''data.txt'', ''index.idx'', ''-8'', ''aa'']) = Trapped"
  by (simp_all add: main_def Let_def atoi_minus_1 size_t_minus_8 createIndex_aborts_def
      searchForKey_killed_def allocatable_def)

end
